theory Spec2Isabelle
  imports Complex_Main
begin

section \<open>Data of the AI reporter\<close>

text \<open>
  The reporter of \<^verbatim>\<open>packages/ai-reporter/src/index.ts\<close> works on JavaScript objects
  that are shared by reference with the detector. Clone objects therefore live in a heap
  and are named by their address; the nested location objects are only ever read by the
  reporter and are kept as values inside a clone object.
\<close>

type_synonym addr = nat

datatype error = IOError | SyntaxError | TypeError | UpdaterError | ServiceError

record token_location =
  line :: nat
  column :: nat
  position :: nat

record clone_location =
  sourceId :: "string option"
  start :: "token_location option"
  end_loc :: "token_location option"
  range_loc :: "nat \<times> nat"
  fragment :: "string option"

record semantic_analysis =
  similarityScore :: nat
  functionallyEquivalent :: bool
  analysis_reasoning :: string

record refactoring_suggestion =
  suggestion_type :: string
  description :: string
  reasoning :: string

text \<open>\<^verbatim>\<open>IClone\<close> with the optional fields \<^verbatim>\<open>AIEnhancedClone\<close> adds to it.\<close>

record clone_obj =
  format :: "string option"
  foundDate :: "nat option"
  duplicationA :: "clone_location option"
  duplicationB :: "clone_location option"
  semanticAnalysis :: "semantic_analysis option"
  refactoringSuggestion :: "refactoring_suggestion option"
  explanation :: "string option"
  aiProcessed :: "bool option"

text \<open>
  The heap is the list of the clone objects allocated so far; an address is an index, and
  a new object is appended, so its address is fresh. JavaScript has no dangling
  reference: an address outside the heap reads as an object without fields.
\<close>

type_synonym heap = "clone_obj list"

definition empty_obj :: clone_obj where
  "empty_obj =
     \<lparr>format = None, foundDate = None, duplicationA = None, duplicationB = None,
      semanticAnalysis = None, refactoringSuggestion = None, explanation = None,
      aiProcessed = None\<rparr>"

definition deref :: "heap \<Rightarrow> addr \<Rightarrow> clone_obj" where
  "deref h a = (if a < length h then h ! a else empty_obj)"

text \<open>The fields of \<^verbatim>\<open>IStatistic\<close> that the reporter reads.\<close>

record stat_row =
  lines :: nat
  percentage :: rat

record statistic =
  total :: "stat_row option"
  formats :: "(string \<times> stat_row) list option"

datatype report_format = Json | Markdown | Html

record ai_report_options =
  output_path :: "string option"
  report_format :: report_format
  includeRefactoringSuggestions :: bool
  includeSemanticAnalysis :: bool
  includeExplanations :: bool
  minSimilarityForAI :: nat

record report_summary =
  totalClones :: nat
  totalFiles :: nat
  totalLines :: nat
  duplicatePercentage :: rat
  aiAnalyzedClones :: nat

record refactoring_summary =
  highPriority :: nat
  mediumPriority :: nat
  lowPriority :: nat
  totalSuggestions :: nat

text \<open>
  The recommendation texts of \<^verbatim>\<open>generateRecommendations\<close>, one constructor per
  message; the number a message prints is its argument.
\<close>

datatype recommendation =
    HighDuplication rat
  | HighPriorityOpportunities nat
  | MultipleOpportunities
  | InstallOllama

record ai_report =
  summary :: report_summary
  report_clones :: "clone_obj list"
  refactoringSummary :: refactoring_summary
  recommendations :: "recommendation list"
  generatedAt :: int
  ollamaModel :: "string option"

text \<open>
  \<^verbatim>\<open>OllamaService\<close> belongs to another package; the reporter sees its configured
  model and three calls, each of which returns a value or throws.
\<close>

record ollama_service =
  model :: string
  analyzeSementicSimilarity :: "string \<Rightarrow> string \<Rightarrow> string \<Rightarrow> error + semantic_analysis"
  generateRefactoringSuggestion ::
    "(string \<times> string \<times> nat) list \<Rightarrow> string \<Rightarrow> error + refactoring_suggestion"
  explainDuplication ::
    "string \<Rightarrow> (string option \<times> nat option) list \<Rightarrow> string \<Rightarrow> error + string"

subsection \<open>Promises\<close>

text \<open>
  A promise is described by what its settlement depends on. \<open>Async c\<close> is the promise
  of a running asynchronous call \<open>c\<close>; whether that call has finished, and how, is read
  from the environment. \<open>Promise_then p q\<close> is \<^verbatim>\<open>p.then(() => q)\<close> for a callback that
  returns the promise \<open>q\<close>; \<open>Promise_catch p ok\<close> is \<^verbatim>\<open>p.catch(h)\<close> for a synchronous
  handler \<open>h\<close>, with \<open>ok\<close> false when the handler itself throws; \<open>Await_then p ok\<close> is
  an \<^verbatim>\<open>async\<close> function whose body awaits \<open>p\<close> and then runs synchronous code, with
  \<open>ok\<close> false when that code throws.
\<close>

datatype async_call = InitializeOllama | ProcessCloneWithAI addr addr

datatype promise =
    Promise_resolve
  | Async async_call
  | Promise_then promise promise
  | Promise_catch promise bool
  | Await_then promise bool
  | AllSettled "promise list"

datatype promise_state = Pending | Fulfilled | Rejected



subsection \<open>The reporter object\<close>

record ai_reporter =
  ollamaService :: "ollama_service option"
  options :: ai_report_options
  clones :: "addr list"
  aiProcessingPromises :: "promise list"
  initializationPromise :: promise
  processedCount :: nat
  failedCount :: nat
  statistic_of :: "statistic option"
  completionPromise :: promise

text \<open>Dereferencing \<^verbatim>\<open>this.clones\<close>: the objects the collected references point to.\<close>

definition the_clones :: "heap \<Rightarrow> ai_reporter \<Rightarrow> clone_obj list" where
  "the_clones h r = map (deref h) (clones r)"

section \<open>The report\<close>

text \<open>One step of the \<^verbatim>\<open>forEach\<close> of \<^verbatim>\<open>calculateRefactoringSummary\<close>.\<close>

fun count_priority :: "nat \<times> nat \<times> nat \<Rightarrow> clone_obj \<Rightarrow> nat \<times> nat \<times> nat" where
  "count_priority (hi, me, lo) c =
     (case refactoringSuggestion c of
        None \<Rightarrow> (hi, me, lo)
      | Some s \<Rightarrow>
          (let potential = suggestion_type s in
           if potential = ''extract-function'' \<or> potential = ''extract-class''
           then (hi + 1, me, lo)
           else if potential = ''create-module'' then (hi, me + 1, lo)
           else (hi, me, lo + 1)))"

definition calculateRefactoringSummary :: "heap \<Rightarrow> ai_reporter \<Rightarrow> refactoring_summary" where
  "calculateRefactoringSummary h r =
     (case foldl count_priority (0, 0, 0) (the_clones h r) of
        (hi, me, lo) \<Rightarrow>
          \<lparr>highPriority = hi, mediumPriority = me, lowPriority = lo,
           totalSuggestions = hi + me + lo\<rparr>)"

definition generateRecommendations ::
  "ai_reporter \<Rightarrow> statistic \<Rightarrow> refactoring_summary \<Rightarrow> recommendation list" where
  "generateRecommendations r st rs =
     (case total st of
        None \<Rightarrow> []
      | Some row \<Rightarrow> (if percentage row \<noteq> 0 \<and> percentage row > 10
                     then [HighDuplication (percentage row)] else []))
     @ (if highPriority rs > 0 then [HighPriorityOpportunities (highPriority rs)] else [])
     @ (if totalSuggestions rs > 5 then [MultipleOpportunities] else [])
     @ (if ollamaService r = None then [InstallOllama] else [])"

text \<open>
  \<^verbatim>\<open>generateReport\<close>; the clock read by \<^verbatim>\<open>new Date()\<close> is the argument \<open>t\<close>.
\<close>

definition generateReport :: "heap \<Rightarrow> ai_reporter \<Rightarrow> int \<Rightarrow> statistic \<Rightarrow> ai_report" where
  "generateReport h r t st =
     (let aiAnalyzed = length (filter (\<lambda>c. aiProcessed c = Some True) (the_clones h r));
          rs = calculateRefactoringSummary h r;
          recs = generateRecommendations r st rs
      in \<lparr>summary =
            \<lparr>totalClones = length (clones r),
             totalFiles = (case formats st of None \<Rightarrow> 0 | Some fs \<Rightarrow> length fs),
             totalLines = (case total st of None \<Rightarrow> 0 | Some row \<Rightarrow> lines row),
             duplicatePercentage = (case total st of None \<Rightarrow> 0 | Some row \<Rightarrow> percentage row),
             aiAnalyzedClones = aiAnalyzed\<rparr>,
          report_clones = the_clones h r,
          refactoringSummary = rs,
          recommendations = recs,
          generatedAt = t,
          ollamaModel = map_option model (ollamaService r)\<rparr>)"

section \<open>The host environment\<close>

text \<open>
  What a report file holds: \<^verbatim>\<open>JSON.stringify(report)\<close>, the Markdown rendering of a
  report, the text of any other JSON value, or text that is not JSON.
\<close>

datatype file_content =
    Json_report ai_report
  | Markdown_report ai_report
  | Json_other string
  | Other_content string

text \<open>
  What \<^verbatim>\<open>JSON.parse\<close> returns and an updater is handed: an object with the shape of a
  report, or any other JSON value, known by its text. An updater changes the value in
  place or throws; it may leave a value that cannot be written (one with a cycle, on
  which \<^verbatim>\<open>JSON.stringify\<close> throws).
\<close>

datatype json_value = Report_value ai_report | Other_value string | Unwritable_value

type_synonym updater = "json_value \<Rightarrow> error + json_value"

text \<open>The arguments of one call of \<^verbatim>\<open>PromptGenerator.writePrompt\<close>.\<close>

record prompt_call =
  prompt_outputPath :: string
  projectName :: string
  language :: string
  prompt_report :: ai_report

text \<open>
  The world outside the objects: the files and directories, the paths on which a file
  system call throws, Node's \<^verbatim>\<open>path.dirname\<close> and \<^verbatim>\<open>path.join\<close>, the clock of
  \<^verbatim>\<open>Date.now()\<close>, the calls made to the prompt generator, and the pending timers of
  \<^verbatim>\<open>setTimeout\<close> (handle, due time, the updater the callback was created with).
\<close>

record world =
  files :: "string \<rightharpoonup> file_content"
  dirs :: "string set"
  io_fails :: "string \<Rightarrow> bool"
  path_dirname :: "string \<Rightarrow> string"
  path_join :: "string \<Rightarrow> string \<Rightarrow> string"
  now :: int
  prompt_calls :: "prompt_call list"
  timers :: "(nat \<times> int \<times> updater) list"
  next_timer :: nat

definition ensureDirSync :: "string \<Rightarrow> world \<Rightarrow> error + world" where
  "ensureDirSync p w = (if io_fails w p then Inl IOError else Inr (w\<lparr>dirs := insert p (dirs w)\<rparr>))"

definition writeFileSync :: "string \<Rightarrow> file_content \<Rightarrow> world \<Rightarrow> error + world" where
  "writeFileSync p c w =
     (if io_fails w p then Inl IOError else Inr (w\<lparr>files := (files w)(p \<mapsto> c)\<rparr>))"

definition existsSync :: "string \<Rightarrow> world \<Rightarrow> bool" where
  "existsSync p w = (files w p \<noteq> None \<or> p \<in> dirs w)"

definition readFileSync :: "string \<Rightarrow> world \<Rightarrow> error + file_content" where
  "readFileSync p w =
     (case files w p of
        None \<Rightarrow> Inl IOError
      | Some c \<Rightarrow> if io_fails w p then Inl IOError else Inr c)"

text \<open>
  \<^verbatim>\<open>JSON.parse\<close> accepts every JSON text, a report or not, and throws a SyntaxError on
  the rest. \<^verbatim>\<open>JSON.stringify\<close> gives the text of a value back.
\<close>

definition JSON_parse :: "file_content \<Rightarrow> error + json_value" where
  "JSON_parse c =
     (case c of
        Json_report rep \<Rightarrow> Inr (Report_value rep)
      | Json_other t \<Rightarrow> Inr (Other_value t)
      | _ \<Rightarrow> Inl SyntaxError)"

definition JSON_stringify :: "json_value \<Rightarrow> error + file_content" where
  "JSON_stringify v =
     (case v of
        Report_value rep \<Rightarrow> Inr (Json_report rep)
      | Other_value t \<Rightarrow> Inr (Json_other t)
      | Unwritable_value \<Rightarrow> Inl TypeError)"

text \<open>
  \<^verbatim>\<open>PromptGenerator\<close> is not among the sources. Its \<^verbatim>\<open>writePrompt\<close> is taken by
  what the reporter observes of it: the call throws, or it is made with its arguments.
\<close>

definition writePrompt :: "prompt_call \<Rightarrow> world \<Rightarrow> error + world" where
  "writePrompt c w =
     (if io_fails w (prompt_outputPath c) then Inl IOError
      else Inr (w\<lparr>prompt_calls := prompt_calls w @ [c]\<rparr>))"

subsection \<open>Strings\<close>

definition truthy :: "string option \<Rightarrow> bool" where
  "truthy s = (case s of None \<Rightarrow> False | Some v \<Rightarrow> v \<noteq> [])"

text \<open>\<^verbatim>\<open>s || d\<close> on an optional string.\<close>

definition or_else :: "string option \<Rightarrow> string \<Rightarrow> string" where
  "or_else s d = (case s of None \<Rightarrow> d | Some v \<Rightarrow> if v = [] then d else v)"

definition endsWith :: "string \<Rightarrow> string \<Rightarrow> bool" where
  "endsWith s suf = (length suf \<le> length s \<and> drop (length s - length suf) s = suf)"

text \<open>\<^verbatim>\<open>s.replace(pat, rep)\<close> with a string pattern: the first occurrence only.\<close>

fun replace_first :: "string \<Rightarrow> string \<Rightarrow> string \<Rightarrow> string" where
  "replace_first pat rep [] = (if pat = [] then rep else [])"
| "replace_first pat rep (c # cs) =
     (if take (length pat) (c # cs) = pat then rep @ drop (length pat) (c # cs)
      else c # replace_first pat rep cs)"

section \<open>Saving the report\<close>

text \<open>
  \<^verbatim>\<open>saveReportSync\<close>. \<^verbatim>\<open>ensureDirSync\<close> stands before the \<^verbatim>\<open>try\<close>, so its
  exception leaves the function; an exception of \<^verbatim>\<open>writeFileSync\<close> is caught and
  logged. There is no branch for the format \<^verbatim>\<open>html\<close>.
\<close>

definition report_path :: "ai_reporter \<Rightarrow> string" where
  "report_path r =
     (let outputPath = or_else (output_path (options r)) ''.'' in
      if \<not> endsWith outputPath ''.json'' \<and> \<not> endsWith outputPath ''.md''
      then outputPath @ ''/jscpd-ai-report.json'' else outputPath)"

definition saveReportSync :: "ai_reporter \<Rightarrow> ai_report \<Rightarrow> world \<Rightarrow> error + world" where
  "saveReportSync r rep w =
     (let outputPath = or_else (output_path (options r)) ''.'' in
      case (if \<not> endsWith outputPath ''.json'' \<and> \<not> endsWith outputPath ''.md''
            then ensureDirSync outputPath w else Inr w) of
        Inl e \<Rightarrow> Inl e
      | Inr w1 \<Rightarrow>
          Inr (case report_format (options r) of
                 Json \<Rightarrow>
                   (case writeFileSync (report_path r) (Json_report rep) w1 of
                      Inl e \<Rightarrow> w1 | Inr w2 \<Rightarrow> w2)
               | Markdown \<Rightarrow>
                   (case writeFileSync (replace_first ''.json'' ''.md'' (report_path r))
                           (Markdown_report rep) w1 of
                      Inl e \<Rightarrow> w1 | Inr w2 \<Rightarrow> w2)
               | Html \<Rightarrow> w1))"

text \<open>\<^verbatim>\<open>generateAIPrompt\<close>: everything is inside \<^verbatim>\<open>try\<close>, nothing is thrown.\<close>

definition prompt_path :: "ai_reporter \<Rightarrow> world \<Rightarrow> string" where
  "prompt_path r w =
     path_join w
       (case output_path (options r) of
          None \<Rightarrow> ''.''
        | Some out \<Rightarrow> if out = [] then ''.'' else path_dirname w out)
       ''refactoring-guide.md''"

definition guide_call :: "ai_reporter \<Rightarrow> ai_report \<Rightarrow> world \<Rightarrow> prompt_call" where
  "guide_call r rep w =
     \<lparr>prompt_outputPath = prompt_path r w, projectName = ''Project'',
      language = (case report_clones rep of [] \<Rightarrow> ''code''
                  | c # _ \<Rightarrow> or_else (format c) ''code''),
      prompt_report = rep\<rparr>"

definition generateAIPrompt :: "ai_reporter \<Rightarrow> ai_report \<Rightarrow> world \<Rightarrow> world" where
  "generateAIPrompt r rep w =
     (case writePrompt (guide_call r rep w) w of
        Inl e \<Rightarrow> w
      | Inr w' \<Rightarrow> w')"

text \<open>
  \<^verbatim>\<open>failedCount / clones.length > 0.5\<close>. Both numbers are counts far below
  \<open>2^53\<close>, where the quotient of doubles exceeds one half exactly when twice the
  numerator exceeds the denominator; \<^verbatim>\<open>0 / 0\<close> is NaN, which exceeds nothing.
\<close>

definition failureRate_high :: "ai_reporter \<Rightarrow> bool" where
  "failureRate_high r = (2 * failedCount r > length (clones r))"

definition finalize :: "heap \<Rightarrow> ai_reporter \<Rightarrow> world \<Rightarrow> error + world" where
  "finalize h r w =
     (case statistic_of r of
        None \<Rightarrow> Inr w
      | Some st \<Rightarrow>
          if failureRate_high r then Inr w
          else
            (let rep = generateReport h r (now w) st in
             case (if truthy (output_path (options r)) then saveReportSync r rep w else Inr w) of
               Inl e \<Rightarrow> Inl e
             | Inr w1 \<Rightarrow>
                 Inr (if processedCount r > 0 \<and> truthy (output_path (options r))
                      then generateAIPrompt r rep w1 else w1)))"

definition updateReportWithAIResults :: "heap \<Rightarrow> ai_reporter \<Rightarrow> world \<Rightarrow> world" where
  "updateReportWithAIResults h r w =
     (case statistic_of r of
        None \<Rightarrow> w
      | Some st \<Rightarrow>
          if \<not> truthy (output_path (options r)) then w
          else (case saveReportSync r (generateReport h r (now w) st) w of
                  Inl e \<Rightarrow> w
                | Inr w' \<Rightarrow> w'))"

text \<open>
  \<^verbatim>\<open>processAllAITasks\<close> after its \<^verbatim>\<open>await\<close>: the loop over the results of
  \<^verbatim>\<open>Promise.allSettled\<close> (\<open>n\<close> is \<^verbatim>\<open>results.length\<close>, \<open>i\<close> the index), then
  \<^verbatim>\<open>finalize\<close>.
\<close>

fun forEach_results ::
  "heap \<Rightarrow> nat \<Rightarrow> nat \<Rightarrow> promise_state list \<Rightarrow> ai_reporter \<times> world \<Rightarrow> ai_reporter \<times> world" where
  "forEach_results h n i [] (r, w) = (r, w)"
| "forEach_results h n i (res # rest) (r, w) =
     (if res = Fulfilled
      then (let r1 = r\<lparr>processedCount := processedCount r + 1\<rparr>;
                w1 = (if i = n - 1 \<or> (i + 1) mod 5 = 0
                      then updateReportWithAIResults h r1 w else w)
            in forEach_results h n (i + 1) rest (r1, w1))
      else forEach_results h n (i + 1) rest (r\<lparr>failedCount := failedCount r + 1\<rparr>, w))"

definition processAllAITasks ::
  "heap \<Rightarrow> promise_state list \<Rightarrow> ai_reporter \<Rightarrow> world \<Rightarrow> ai_reporter \<times> (error + world)" where
  "processAllAITasks h results r w =
     (case forEach_results h (length results) 0 results (r, w) of
        (r', w') \<Rightarrow> (r', finalize h r' w'))"

section \<open>Collecting clones and enhancing them\<close>

text \<open>
  The constructor. \<^verbatim>\<open>options\<close> is untyped in the source; these are the properties
  the constructor reads. The spread \<^verbatim>\<open>...aiOptions\<close> comes last, so a property
  that \<^verbatim>\<open>aiOptions\<close> has wins over the default computed before it.
\<close>

record ai_options_in =
  in_output :: "string option"
  in_format :: "report_format option"
  in_includeRefactoringSuggestions :: "bool option"
  in_includeSemanticAnalysis :: "bool option"
  in_includeExplanations :: "bool option"
  in_minSimilarityForAI :: "nat option"

record constructor_options =
  global_output :: "string option"
  reportersOptions_ai :: "ai_options_in option"

definition no_ai_options :: ai_options_in where
  "no_ai_options =
     \<lparr>in_output = None, in_format = None, in_includeRefactoringSuggestions = None,
      in_includeSemanticAnalysis = None, in_includeExplanations = None,
      in_minSimilarityForAI = None\<rparr>"

text \<open>
  \<^verbatim>\<open>initializeOllama\<close> is an \<^verbatim>\<open>async\<close> function whose whole body is inside
  \<^verbatim>\<open>try\<close>, with a handler that only logs: its promise is never rejected.
\<close>

definition initializeOllama :: promise where
  "initializeOllama = Promise_catch (Async InitializeOllama) True"

text \<open>
  \<open>svc\<close> is the service object \<^verbatim>\<open>initializeOllama\<close> creates before its first
  \<^verbatim>\<open>await\<close> (none when its constructor throws).
\<close>

definition AIReporter_new :: "constructor_options \<Rightarrow> ollama_service option \<Rightarrow> ai_reporter" where
  "AIReporter_new opts svc =
     (let aiOptions = (case reportersOptions_ai opts of None \<Rightarrow> no_ai_options | Some a \<Rightarrow> a) in
      \<lparr>ollamaService = svc,
       options =
         \<lparr>output_path = (case in_output aiOptions of Some p \<Rightarrow> Some p | None \<Rightarrow> global_output opts),
          report_format = (case in_format aiOptions of Some f \<Rightarrow> f | None \<Rightarrow> Json),
          includeRefactoringSuggestions =
            (case in_includeRefactoringSuggestions aiOptions of Some b \<Rightarrow> b | None \<Rightarrow> True),
          includeSemanticAnalysis =
            (case in_includeSemanticAnalysis aiOptions of Some b \<Rightarrow> b | None \<Rightarrow> True),
          includeExplanations =
            (case in_includeExplanations aiOptions of Some b \<Rightarrow> b | None \<Rightarrow> False),
          minSimilarityForAI =
            (case in_minSimilarityForAI aiOptions of Some n \<Rightarrow> n | None \<Rightarrow> 40)\<rparr>,
       clones = [],
       aiProcessingPromises = [],
       initializationPromise = initializeOllama,
       processedCount = 0,
       failedCount = 0,
       statistic_of = None,
       completionPromise = Promise_resolve\<rparr>)"

text \<open>The end of \<^verbatim>\<open>initializeOllama\<close>: the service is dropped when it is not available.\<close>

definition availability_checked :: "bool \<Rightarrow> ai_reporter \<Rightarrow> ai_reporter" where
  "availability_checked isAvailable r = (if isAvailable then r else r\<lparr>ollamaService := None\<rparr>)"

text \<open>
  \<^verbatim>\<open>collectClone\<close>: the spread \<^verbatim>\<open>{ ...clone, aiProcessed: false }\<close> allocates a new
  object, and the promise of the background task is pushed.
\<close>

definition collectClone :: "addr \<Rightarrow> heap \<times> ai_reporter \<Rightarrow> heap \<times> ai_reporter" where
  "collectClone a s =
     (case s of (h, r) \<Rightarrow>
        (let enhancedClone = (deref h a)\<lparr>aiProcessed := Some False\<rparr>;
             a' = length h
         in (h @ [enhancedClone],
             r\<lparr>clones := clones r @ [a'],
               aiProcessingPromises :=
                 aiProcessingPromises r @ [Promise_catch (Async (ProcessCloneWithAI a a')) True]\<rparr>)))"

text \<open>The fields of \<^verbatim>\<open>IEventPayload\<close>; \<^verbatim>\<open>clone\<close> is a reference.\<close>

record event_payload =
  clone :: "addr option"
  payload_sourceId :: "string option"

definition CLONE_FOUND_handler :: "event_payload \<Rightarrow> heap \<times> ai_reporter \<Rightarrow> heap \<times> ai_reporter" where
  "CLONE_FOUND_handler payload s =
     (case clone payload of Some a \<Rightarrow> collectClone a s | None \<Rightarrow> s)"

definition subscribe ::
  "string \<rightharpoonup> (event_payload \<Rightarrow> heap \<times> ai_reporter \<Rightarrow> heap \<times> ai_reporter)" where
  "subscribe = [''CLONE_FOUND'' \<mapsto> CLONE_FOUND_handler]"

definition shouldUseAI :: "ai_reporter \<Rightarrow> bool" where
  "shouldUseAI r = (ollamaService r \<noteq> None)"

definition analyzeSemantics :: "ai_reporter \<Rightarrow> clone_obj \<Rightarrow> semantic_analysis option" where
  "analyzeSemantics r c =
     (case (ollamaService r, duplicationA c, duplicationB c) of
        (Some svc, Some da, Some db) \<Rightarrow>
          (case analyzeSementicSimilarity svc (or_else (fragment da) [])
                  (or_else (fragment db) []) (or_else (format c) ''unknown'') of
             Inl e \<Rightarrow> None
           | Inr v \<Rightarrow> Some v)
      | _ \<Rightarrow> None)"

definition line_or_0 :: "clone_location \<Rightarrow> nat" where
  "line_or_0 d = (case start d of None \<Rightarrow> 0 | Some p \<Rightarrow> line p)"

definition generateRefactoring :: "ai_reporter \<Rightarrow> clone_obj \<Rightarrow> refactoring_suggestion option" where
  "generateRefactoring r c =
     (case (ollamaService r, duplicationA c, duplicationB c) of
        (Some svc, Some da, Some db) \<Rightarrow>
          (case generateRefactoringSuggestion svc
                  [(or_else (fragment da) [], or_else (sourceId da) ''unknown'', line_or_0 da),
                   (or_else (fragment db) [], or_else (sourceId db) ''unknown'', line_or_0 db)]
                  (or_else (format c) ''unknown'') of
             Inl e \<Rightarrow> None
           | Inr v \<Rightarrow> Some v)
      | _ \<Rightarrow> None)"

definition location_of :: "clone_location option \<Rightarrow> string option \<times> nat option" where
  "location_of d =
     (case d of None \<Rightarrow> (None, None)
      | Some l \<Rightarrow> (sourceId l, map_option line (start l)))"

definition explainDuplication_of :: "ai_reporter \<Rightarrow> clone_obj \<Rightarrow> string option" where
  "explainDuplication_of r c =
     (case (ollamaService r, duplicationA c) of
        (Some svc, Some da) \<Rightarrow>
          (case explainDuplication svc (or_else (fragment da) [])
                  [location_of (duplicationA c), location_of (duplicationB c)]
                  (or_else (format c) ''unknown'') of
             Inl e \<Rightarrow> None
           | Inr v \<Rightarrow> Some v)
      | _ \<Rightarrow> None)"

text \<open>
  \<^verbatim>\<open>processCloneWithAI(clone, enhancedClone)\<close>, with \<open>a\<close> the address of
  \<^verbatim>\<open>clone\<close> and \<open>a'\<close> that of \<^verbatim>\<open>enhancedClone\<close>. The function suspends at each
  \<^verbatim>\<open>await\<close>; what it does to the heap between two suspensions is one assignment to a
  field of \<^verbatim>\<open>enhancedClone\<close>, and the model runs these assignments in their order.
\<close>

definition assign :: "addr \<Rightarrow> (clone_obj \<Rightarrow> clone_obj) \<Rightarrow> heap \<Rightarrow> heap" where
  "assign a' f h = (if a' < length h then h[a' := f (h ! a')] else h)"

definition processCloneWithAI :: "ai_reporter \<Rightarrow> addr \<Rightarrow> addr \<Rightarrow> heap \<Rightarrow> heap" where
  "processCloneWithAI r a a' h =
     (if \<not> shouldUseAI r then h
      else
        (let sem = includeSemanticAnalysis (options r) \<and> ollamaService r \<noteq> None;
             h1 = (if sem
                   then assign a' (\<lambda>e. e\<lparr>semanticAnalysis := analyzeSemantics r (deref h a)\<rparr>) h
                   else h);
             ref = includeRefactoringSuggestions (options r) \<and> ollamaService r \<noteq> None;
             h2 = (if ref
                   then assign a' (\<lambda>e. e\<lparr>refactoringSuggestion := generateRefactoring r (deref h1 a)\<rparr>) h1
                   else h1);
             exp = includeExplanations (options r) \<and> ollamaService r \<noteq> None;
             h3 = (if exp
                   then assign a' (\<lambda>e. e\<lparr>explanation := explainDuplication_of r (deref h2 a)\<rparr>) h2
                   else h2);
             aiCallsMade = (sem \<or> ref \<or> exp)
         in if aiCallsMade then assign a' (\<lambda>e. e\<lparr>aiProcessed := Some True\<rparr>) h3 else h3))"

section \<open>Reporting and completion\<close>

text \<open>
  \<^verbatim>\<open>generateAndSaveInitialReport\<close> rethrows what it catches. \<^verbatim>\<open>IReporter.report\<close>
  may be given \<^verbatim>\<open>undefined\<close> for the statistic, on which \<^verbatim>\<open>generateReport\<close> throws
  a TypeError.
\<close>

definition generateAndSaveInitialReport ::
  "heap \<Rightarrow> ai_reporter \<Rightarrow> statistic option \<Rightarrow> world \<Rightarrow> error + world" where
  "generateAndSaveInitialReport h r st w =
     (case st of
        None \<Rightarrow> Inl TypeError
      | Some s \<Rightarrow>
          (let rep = generateReport h r (now w) s in
           if truthy (output_path (options r)) then saveReportSync r rep w else Inr w))"

text \<open>
  What is only decided after \<^verbatim>\<open>report()\<close> has returned: the promises pushed to
  \<^verbatim>\<open>aiProcessingPromises\<close> before \<^verbatim>\<open>processAllAITasks\<close> reads the array, whether the
  synchronous end of \<^verbatim>\<open>processAllAITasks\<close> returns, and whether the handler of
  \<^verbatim>\<open>.catch\<close> returns.
\<close>

record future =
  pushed_later :: "promise list"
  tasks_tail_ok :: bool
  catch_handler_ok :: bool

definition processAllAITasks_promise :: "ai_reporter \<Rightarrow> future \<Rightarrow> promise" where
  "processAllAITasks_promise r fut =
     Await_then (AllSettled (aiProcessingPromises r @ pushed_later fut)) (tasks_tail_ok fut)"

definition report ::
  "heap \<Rightarrow> addr list \<Rightarrow> statistic option \<Rightarrow> future \<Rightarrow> ai_reporter \<Rightarrow> world
     \<Rightarrow> ai_reporter \<times> (error + world)" where
  "report h cs st fut r w =
     (let r1 = r\<lparr>statistic_of := st\<rparr> in
      case generateAndSaveInitialReport h r1 st w of
        Inl e \<Rightarrow> (r1, Inl e)
      | Inr w1 \<Rightarrow>
          (if length (aiProcessingPromises r1) > 0
           then r1\<lparr>completionPromise :=
                     Promise_catch
                       (Promise_then (initializationPromise r1) (processAllAITasks_promise r1 fut))
                       (catch_handler_ok fut)\<rparr>
           else r1\<lparr>completionPromise := Promise_resolve\<rparr>,
           Inr w1))"





section \<open>The progressive writer\<close>

text \<open>\<^verbatim>\<open>packages/ai-reporter/src/progressive-writer.ts\<close>.\<close>

record progressive_writer =
  outputPath :: string
  updateInterval :: int
  lastUpdate :: int
  pendingUpdate :: "nat option"

record progressive_writer_options =
  opt_outputPath :: string
  opt_updateInterval :: "int option"

definition ProgressiveWriter_new :: "progressive_writer_options \<Rightarrow> progressive_writer" where
  "ProgressiveWriter_new opts =
     \<lparr>outputPath = opt_outputPath opts,
      updateInterval = (case opt_updateInterval opts of
                          None \<Rightarrow> 1000
                        | Some n \<Rightarrow> if n = 0 then 1000 else n),
      lastUpdate = 0,
      pendingUpdate = None\<rparr>"

text \<open>
  \<^verbatim>\<open>writeReportSync\<close> rethrows; the result is the world as the function leaves it
  and the exception, if one is thrown.
\<close>

definition writeReportSync :: "progressive_writer \<Rightarrow> json_value \<Rightarrow> world \<Rightarrow> world \<times> error option" where
  "writeReportSync pw v w =
     (case ensureDirSync (path_dirname w (outputPath pw)) w of
        Inl e \<Rightarrow> (w, Some e)
      | Inr w1 \<Rightarrow>
          (case JSON_stringify v of
             Inl e \<Rightarrow> (w1, Some e)
           | Inr json \<Rightarrow>
               (case writeFileSync (outputPath pw) json w1 of
                  Inl e \<Rightarrow> (w1, Some e)
                | Inr w2 \<Rightarrow> (w2, None))))"

definition writeInitial ::
  "ai_report \<Rightarrow> progressive_writer \<times> world \<Rightarrow> (progressive_writer \<times> world) \<times> error option" where
  "writeInitial rep s =
     (case s of (pw, w) \<Rightarrow>
        (case writeReportSync pw (Report_value rep) w of
           (w1, Some e) \<Rightarrow> ((pw, w1), Some e)
         | (w1, None) \<Rightarrow> ((pw\<lparr>lastUpdate := now w1\<rparr>, w1), None)))"

text \<open>
  The body of the \<^verbatim>\<open>try\<close> of \<^verbatim>\<open>performUpdate\<close>, with the exception it ends in, and
  \<^verbatim>\<open>performUpdate\<close> itself, whose handler logs the exception and returns.
\<close>

definition performUpdate_try ::
  "updater \<Rightarrow> progressive_writer \<times> world \<Rightarrow> (progressive_writer \<times> world) \<times> error option" where
  "performUpdate_try u s =
     (case s of (pw, w) \<Rightarrow>
        if \<not> existsSync (outputPath pw) w then ((pw, w), None)
        else
          (case readFileSync (outputPath pw) w of
             Inl e \<Rightarrow> ((pw, w), Some e)
           | Inr content \<Rightarrow>
               (case JSON_parse content of
                  Inl e \<Rightarrow> ((pw, w), Some e)
                | Inr rep \<Rightarrow>
                    (case u rep of
                       Inl e \<Rightarrow> ((pw, w), Some e)
                     | Inr rep' \<Rightarrow>
                         (case writeReportSync pw rep' w of
                            (w1, Some e) \<Rightarrow> ((pw, w1), Some e)
                          | (w1, None) \<Rightarrow> ((pw\<lparr>lastUpdate := now w1\<rparr>, w1), None))))))"

definition performUpdate :: "updater \<Rightarrow> progressive_writer \<times> world \<Rightarrow> progressive_writer \<times> world" where
  "performUpdate u s = fst (performUpdate_try u s)"

definition clearTimeout :: "nat \<Rightarrow> world \<Rightarrow> world" where
  "clearTimeout t w = w\<lparr>timers := filter (\<lambda>tm. fst tm \<noteq> t) (timers w)\<rparr>"

definition setTimeout :: "updater \<Rightarrow> int \<Rightarrow> world \<Rightarrow> nat \<times> world" where
  "setTimeout u delay w =
     (next_timer w,
      w\<lparr>timers := timers w @ [(next_timer w, now w + delay, u)],
        next_timer := next_timer w + 1\<rparr>)"

definition updateReport :: "updater \<Rightarrow> progressive_writer \<times> world \<Rightarrow> progressive_writer \<times> world" where
  "updateReport u s =
     (case s of (pw, w) \<Rightarrow>
        (let w1 = (case pendingUpdate pw of Some t \<Rightarrow> clearTimeout t w | None \<Rightarrow> w);
             timeSinceLastUpdate = now w1 - lastUpdate pw;
             delay = max 0 (updateInterval pw - timeSinceLastUpdate)
         in case setTimeout u delay w1 of
              (t, w2) \<Rightarrow> (pw\<lparr>pendingUpdate := Some t\<rparr>, w2)))"

text \<open>The callback given to \<^verbatim>\<open>setTimeout\<close>, run when its timer fires.\<close>

definition timer_callback :: "updater \<Rightarrow> progressive_writer \<times> world \<Rightarrow> progressive_writer \<times> world" where
  "timer_callback u s =
     (case performUpdate u s of (pw, w) \<Rightarrow> (pw\<lparr>pendingUpdate := None\<rparr>, w))"

definition flush :: "updater option \<Rightarrow> progressive_writer \<times> world \<Rightarrow> progressive_writer \<times> world" where
  "flush uo s =
     (case s of (pw, w) \<Rightarrow>
        (let s1 = (case pendingUpdate pw of
                     Some t \<Rightarrow> (pw\<lparr>pendingUpdate := None\<rparr>, clearTimeout t w)
                   | None \<Rightarrow> (pw, w))
         in case uo of Some u \<Rightarrow> performUpdate u s1 | None \<Rightarrow> s1))"

text \<open>
  Time passes: the clock moves on by \<open>dt\<close> and the timers that are due leave the table
  and run, earliest first.
\<close>

definition is_due :: "world \<Rightarrow> nat \<times> int \<times> updater \<Rightarrow> bool" where
  "is_due w tm = (fst (snd tm) \<le> now w)"

definition advance :: "nat \<Rightarrow> progressive_writer \<times> world \<Rightarrow> progressive_writer \<times> world" where
  "advance dt s =
     (case s of (pw, w) \<Rightarrow>
        (let w1 = w\<lparr>now := now w + int dt\<rparr>;
             due = sort_key (\<lambda>tm. fst (snd tm)) (filter (is_due w1) (timers w1));
             w2 = w1\<lparr>timers := filter (\<lambda>tm. \<not> is_due w1 tm) (timers w1)\<rparr>
         in foldl (\<lambda>s' tm. timer_callback (snd (snd tm)) s') (pw, w2) due))"

text \<open>What can happen to a writer: the calls of its public methods and the passing of time.\<close>

datatype pw_event =
    WriteInitial ai_report
  | UpdateReport updater
  | Flush "updater option"
  | Advance nat

fun pw_step :: "progressive_writer \<times> world \<Rightarrow> pw_event \<Rightarrow> progressive_writer \<times> world" where
  "pw_step s (WriteInitial rep) = fst (writeInitial rep s)"
| "pw_step s (UpdateReport u) = updateReport u s"
| "pw_step s (Flush uo) = flush uo s"
| "pw_step s (Advance dt) = advance dt s"

definition pw_run :: "pw_event list \<Rightarrow> progressive_writer \<times> world \<Rightarrow> progressive_writer \<times> world" where
  "pw_run evs s = foldl pw_step s evs"

fun is_WriteInitial :: "pw_event \<Rightarrow> bool" where
  "is_WriteInitial (WriteInitial rep) = True"
| "is_WriteInitial _ = False"

text \<open>At most one timer is pending, and it is the one the writer holds.\<close>

definition one_pending :: "progressive_writer \<times> world \<Rightarrow> bool" where
  "one_pending s =
     (case s of (pw, w) \<Rightarrow>
        length (timers w) \<le> 1 \<and> list_all (\<lambda>tm. pendingUpdate pw = Some (fst tm)) (timers w))"

section \<open>Runs of the reporter\<close>

text \<open>
  What happens around a reporter between its construction and the report: the detector
  allocates a clone object, the detector emits \<^verbatim>\<open>CLONE_FOUND\<close>, the availability check
  of \<^verbatim>\<open>initializeOllama\<close> returns, and a background task that \<^verbatim>\<open>collectClone\<close>
  has started runs.
\<close>

datatype reporter_action =
    Allocates clone_obj
  | Clone_found event_payload
  | Availability_checked bool
  | Task_runs addr addr

definition task_started :: "addr \<Rightarrow> addr \<Rightarrow> ai_reporter \<Rightarrow> bool" where
  "task_started a a' r =
     (Promise_catch (Async (ProcessCloneWithAI a a')) True \<in> set (aiProcessingPromises r))"

fun reporter_step :: "heap \<times> ai_reporter \<Rightarrow> reporter_action \<Rightarrow> heap \<times> ai_reporter" where
  "reporter_step (h, r) (Allocates c) = (h @ [c], r)"
| "reporter_step (h, r) (Clone_found payload) = CLONE_FOUND_handler payload (h, r)"
| "reporter_step (h, r) (Availability_checked b) = (h, availability_checked b r)"
| "reporter_step (h, r) (Task_runs a a') =
     (if task_started a a' r then (processCloneWithAI r a a' h, r) else (h, r))"

definition reporter_run :: "reporter_action list \<Rightarrow> heap \<times> ai_reporter \<Rightarrow> heap \<times> ai_reporter" where
  "reporter_run acts s = foldl reporter_step s acts"

text \<open>
  The tasks a reporter has started each write to one of its own copies, and its copies
  are objects of the heap.
\<close>

fun task_target :: "promise \<Rightarrow> addr option" where
  "task_target (Promise_catch (Async (ProcessCloneWithAI a a')) ok) = Some a'"
| "task_target _ = None"

definition owns_its_copies :: "heap \<times> ai_reporter \<Rightarrow> bool" where
  "owns_its_copies s =
     (case s of (h, r) \<Rightarrow>
        list_all (\<lambda>a'. a' < length h) (clones r)
        \<and> list_all (\<lambda>p. case task_target p of None \<Rightarrow> True | Some a' \<Rightarrow> a' \<in> set (clones r))
             (aiProcessingPromises r))"

text \<open>The four fields \<^verbatim>\<open>AIEnhancedClone\<close> adds, set to given values.\<close>

definition enhance ::
  "semantic_analysis option \<Rightarrow> refactoring_suggestion option \<Rightarrow> string option \<Rightarrow> bool option
     \<Rightarrow> clone_obj \<Rightarrow> clone_obj" where
  "enhance sa rs ex ap e =
     e\<lparr>semanticAnalysis := sa, refactoringSuggestion := rs, explanation := ex, aiProcessed := ap\<rparr>"



section \<open>The detection core, from the specification\<close>

text \<open>
  Modelled from the spec: the tokenizer, the token map, the store, the Rabin-Karp matcher,
  the validators and the detector are not among the sources. A token as section 3 has
  it, with its mask key under the active mode and the places where it starts and where
  it ends (\<open>position\<close> is the byte offset, so the range of the token is from the
  position of its start to the position of its end).
\<close>

record sig_token =
  maskKey :: string
  tok_start :: token_location
  tok_end :: token_location

text \<open>
  Modelled from the spec: a record of the file set (section 6), with the tokens the
  tokenizer gives for it.
\<close>

record source_file =
  file_sourceId :: string
  file_format :: string
  file_source :: string
  file_tokens :: "sig_token list"


text \<open>Modelled from the spec: a map frame (section 3).\<close>

record map_frame =
  frame_id :: nat
  frame_sourceId :: string
  frame_start :: token_location
  frame_end :: token_location
  frame_index :: nat

text \<open>
  Modelled from the spec: step 1 of \<^verbatim>\<open>buildFrames\<close> (section 4.2) drops the tokens
  whose mask key is empty.
\<close>

definition significant :: "sig_token list \<Rightarrow> sig_token list" where
  "significant ts = filter (\<lambda>t. maskKey t \<noteq> []) ts"

text \<open>
  Modelled from the spec: a file of \<open>N\<close> significant tokens has
  \<open>max(0, N - minTokens + 1)\<close> frames.
\<close>

definition nframes :: "nat \<Rightarrow> sig_token list \<Rightarrow> nat" where
  "nframes m sig = length sig + 1 - m"

text \<open>Modelled from the spec: the mask keys of \<open>n\<close> tokens from token \<open>i\<close> on.\<close>

definition keys_from :: "sig_token list \<Rightarrow> nat \<Rightarrow> nat \<Rightarrow> string list" where
  "keys_from sig i n = map maskKey (take n (drop i sig))"

text \<open>
  Modelled from the spec: steps 2 and 3 of \<^verbatim>\<open>buildFrames\<close>. The hash is the
  implementer's choice, so it is a parameter: any function of the concatenated mask keys.
\<close>

definition frame_at :: "(string \<Rightarrow> nat) \<Rightarrow> nat \<Rightarrow> string \<Rightarrow> sig_token list \<Rightarrow> nat \<Rightarrow> map_frame" where
  "frame_at hash m sid sig i =
     \<lparr>frame_id = hash (concat (keys_from sig i m)),
      frame_sourceId = sid,
      frame_start = tok_start (sig ! i),
      frame_end = tok_end (sig ! (i + m - 1)),
      frame_index = i\<rparr>"

definition buildFrames :: "(string \<Rightarrow> nat) \<Rightarrow> nat \<Rightarrow> string \<Rightarrow> sig_token list \<Rightarrow> map_frame list" where
  "buildFrames hash m sid ts =
     (let sig = significant ts in map (frame_at hash m sid sig) [0 ..< nframes m sig])"

text \<open>
  Modelled from the spec: the store maps a frame id to the last frame recorded with
  that id (sections 3 and 4.3).
\<close>

type_synonym store = "nat \<rightharpoonup> map_frame"

text \<open>
  Modelled from the spec: extension and verification read the frames and the mask keys
  of both sides, and fragment extraction reads the source; the files passed so far are
  kept by source id.
\<close>

type_synonym corpus = "string \<rightharpoonup> source_file"

text \<open>Modelled from the spec: the significant tokens of a file that has been passed.\<close>

definition tokens_of :: "corpus \<Rightarrow> string \<Rightarrow> sig_token list" where
  "tokens_of cp sid = (case cp sid of None \<Rightarrow> [] | Some f \<Rightarrow> significant (file_tokens f))"

text \<open>
  Modelled from the spec: a raw clone records the inclusive frame ranges
  \<open>[prior.index, prior.index + k]\<close> on side A and \<open>[F.index, F.index + k]\<close> on side B.
\<close>

record raw_clone =
  a_sourceId :: string
  a_first :: nat
  b_sourceId :: string
  b_first :: nat
  extensions :: nat

text \<open>
  Modelled from the spec: the verification of a candidate (section 4.2, collision
  policy) compares the mask keys of the two windows token by token. Steps 2 and 3 of
  section 4.4 put no other condition on a candidate.
\<close>

definition admits :: "nat \<Rightarrow> corpus \<Rightarrow> string \<Rightarrow> nat \<Rightarrow> string \<Rightarrow> nat \<Rightarrow> bool" where
  "admits m cp sa p sb q =
     (p < nframes m (tokens_of cp sa) \<and> q < nframes m (tokens_of cp sb)
      \<and> keys_from (tokens_of cp sa) p m = keys_from (tokens_of cp sb) q m)"

text \<open>
  Modelled from the spec: step 4, one extension by \<open>j\<close> windows: both sides still have
  a frame, the two frames share the id, and the new tail tokens have the same mask key.
  Inside one file the extension is rejected "where the B region's start index \<open>\<le>\<close> A
  region's end index": the regions are the inclusive ranges of frame indices
  \<open>[prior.index, prior.index + j]\<close> and \<open>[F.index, F.index + j]\<close> of step 4, so the
  extension stands only if \<open>prior.index + j < F.index\<close>.
\<close>

definition extends :: "(string \<Rightarrow> nat) \<Rightarrow> nat \<Rightarrow> corpus \<Rightarrow> string \<Rightarrow> nat \<Rightarrow> string \<Rightarrow> nat \<Rightarrow> nat \<Rightarrow> bool" where
  "extends hash m cp sa p sb q j =
     (p + j < nframes m (tokens_of cp sa) \<and> q + j < nframes m (tokens_of cp sb)
      \<and> hash (concat (keys_from (tokens_of cp sa) (p + j) m))
          = hash (concat (keys_from (tokens_of cp sb) (q + j) m))
      \<and> keys_from (tokens_of cp sa) (p + j + m - 1) 1 = keys_from (tokens_of cp sb) (q + j + m - 1) 1
      \<and> (sa = sb \<longrightarrow> p + j < q))"

text \<open>
  Modelled from the spec: the number \<open>k\<close> of successful extensions, stopping at the
  first that fails.
\<close>

definition extension_count :: "(string \<Rightarrow> nat) \<Rightarrow> nat \<Rightarrow> corpus \<Rightarrow> string \<Rightarrow> nat \<Rightarrow> string \<Rightarrow> nat \<Rightarrow> nat" where
  "extension_count hash m cp sa p sb q =
     length (takeWhile (extends hash m cp sa p sb q) [1 ..< nframes m (tokens_of cp sb) - q])"

text \<open>
  Modelled from the spec: the state of the forward pass over one file: how many frames
  the outer scan still jumps over, the store, and the raw clones emitted so far.
\<close>

record scan_state =
  skip :: nat
  scan_store :: store
  emitted :: "raw_clone list"

text \<open>
  Modelled from the spec: steps 1 to 7 of section 4.4 for one frame \<open>F\<close> of the file
  \<open>sb\<close>. A frame the scan jumps over is neither looked up nor stored.
\<close>

definition match_frame ::
  "(string \<Rightarrow> nat) \<Rightarrow> nat \<Rightarrow> corpus \<Rightarrow> string \<Rightarrow> scan_state \<Rightarrow> map_frame \<Rightarrow> scan_state" where
  "match_frame hash m cp sb st F =
     (if skip st > 0 then st\<lparr>skip := skip st - 1\<rparr>
      else
        (case scan_store st (frame_id F) of
           None \<Rightarrow> st\<lparr>scan_store := (scan_store st)(frame_id F \<mapsto> F)\<rparr>
         | Some prior \<Rightarrow>
             if frame_sourceId prior = sb \<and> frame_index prior = frame_index F
             then st\<lparr>scan_store := (scan_store st)(frame_id F \<mapsto> F)\<rparr>
             else if admits m cp (frame_sourceId prior) (frame_index prior) sb (frame_index F)
             then (let k = extension_count hash m cp (frame_sourceId prior) (frame_index prior)
                             sb (frame_index F)
                   in st\<lparr>skip := k,
                        scan_store := (scan_store st)(frame_id F \<mapsto> F),
                        emitted := emitted st @
                          [\<lparr>a_sourceId = frame_sourceId prior, a_first = frame_index prior,
                            b_sourceId = sb, b_first = frame_index F, extensions = k\<rparr>]\<rparr>)
             else st\<lparr>scan_store := (scan_store st)(frame_id F \<mapsto> F)\<rparr>))"

text \<open>Modelled from the spec: \<^verbatim>\<open>detect(file, frames, store)\<close>, a single forward pass.\<close>

definition detect ::
  "(string \<Rightarrow> nat) \<Rightarrow> nat \<Rightarrow> corpus \<Rightarrow> string \<Rightarrow> map_frame list \<Rightarrow> store \<Rightarrow> store \<times> raw_clone list" where
  "detect hash m cp sb frames st =
     (let final = foldl (match_frame hash m cp sb)
                    \<lparr>skip = 0, scan_store = st, emitted = []\<rparr> frames
      in (scan_store final, emitted final))"

text \<open>
  Modelled from the spec: the state of the multi-file driver between two files: the
  shared store, the files passed, and the raw clones found.
\<close>

record run_state =
  run_store :: store
  run_corpus :: corpus
  run_clones :: "raw_clone list"

text \<open>Modelled from the spec: the detector runs one file through frames and matcher.\<close>

definition detect_file :: "(string \<Rightarrow> nat) \<Rightarrow> nat \<Rightarrow> run_state \<Rightarrow> source_file \<Rightarrow> run_state" where
  "detect_file hash m rs f =
     (let sid = file_sourceId f;
          cp = (run_corpus rs)(sid \<mapsto> f);
          frames = buildFrames hash m sid (file_tokens f)
      in case detect hash m cp sid frames (run_store rs) of
           (st, found) \<Rightarrow>
             \<lparr>run_store = st, run_corpus = cp, run_clones = run_clones rs @ found\<rparr>)"

text \<open>
  Modelled from the spec: the driver takes the files in the order supplied, from a
  fresh store.
\<close>

definition fresh_run :: run_state where
  "fresh_run = \<lparr>run_store = Map.empty, run_corpus = Map.empty, run_clones = []\<rparr>"

definition run_files :: "(string \<Rightarrow> nat) \<Rightarrow> nat \<Rightarrow> source_file list \<Rightarrow> run_state" where
  "run_files hash m fs = foldl (detect_file hash m) fresh_run fs"

text \<open>Modelled from the spec: the mask keys a side of a raw clone covers.\<close>

definition side_a_keys :: "nat \<Rightarrow> corpus \<Rightarrow> raw_clone \<Rightarrow> string list" where
  "side_a_keys m cp c = keys_from (tokens_of cp (a_sourceId c)) (a_first c) (extensions c + m)"

definition side_b_keys :: "nat \<Rightarrow> corpus \<Rightarrow> raw_clone \<Rightarrow> string list" where
  "side_b_keys m cp c = keys_from (tokens_of cp (b_sourceId c)) (b_first c) (extensions c + m)"

text \<open>
  Modelled from the spec: what the matcher has checked of a raw clone when it emits it:
  the candidate was admitted and each of its extensions succeeded.
\<close>

definition verified :: "(string \<Rightarrow> nat) \<Rightarrow> nat \<Rightarrow> corpus \<Rightarrow> raw_clone \<Rightarrow> bool" where
  "verified hash m cp c =
     (admits m cp (a_sourceId c) (a_first c) (b_sourceId c) (b_first c)
      \<and> list_all (extends hash m cp (a_sourceId c) (a_first c) (b_sourceId c) (b_first c))
           [1 ..< Suc (extensions c)])"











text \<open>Modelled from the spec: the error kinds of section 7.\<close>

datatype core_error = UnknownFormat | TokenizerError | StoreUnavailable | ConfigInvalid



text \<open>
  Modelled from the spec: a maximal pair of identical regions across two token sequences:
  \<open>n\<close> tokens from token \<open>p\<close> of the one and from token \<open>q\<close> of the other, at least a
  window long, with the same mask keys, which can be grown neither to the left nor to the
  right.
\<close>

definition maximal_pair :: "nat \<Rightarrow> sig_token list \<Rightarrow> sig_token list \<Rightarrow> nat \<Rightarrow> nat \<Rightarrow> nat \<Rightarrow> bool" where
  "maximal_pair m xs ys p q n =
     (m \<le> n \<and> p + n \<le> length xs \<and> q + n \<le> length ys
      \<and> keys_from xs p n = keys_from ys q n
      \<and> (p = 0 \<or> q = 0 \<or> maskKey (xs ! (p - 1)) \<noteq> maskKey (ys ! (q - 1)))
      \<and> (p + n = length xs \<or> q + n = length ys
          \<or> maskKey (xs ! (p + n)) \<noteq> maskKey (ys ! (q + n))))"

text \<open>Modelled from the spec: the raw clone for such a pair across the files X and Y.\<close>

definition pair_clone :: "nat \<Rightarrow> source_file \<Rightarrow> nat \<Rightarrow> source_file \<Rightarrow> nat \<Rightarrow> nat \<Rightarrow> raw_clone" where
  "pair_clone m X p Y q n =
     \<lparr>a_sourceId = file_sourceId X, a_first = p, b_sourceId = file_sourceId Y, b_first = q,
      extensions = n - m\<rparr>"

text \<open>Modelled from the spec: the ids of the frames of a file, in order.\<close>

definition frame_ids :: "(string \<Rightarrow> nat) \<Rightarrow> nat \<Rightarrow> source_file \<Rightarrow> nat list" where
  "frame_ids hash m f = map frame_id (buildFrames hash m (file_sourceId f) (file_tokens f))"

text \<open>
  The pass over the file Y, after X, just before its frame \<open>i\<close>: on the ids of the frames of
  Y still to come the store holds what the pass over X left; a scan that is jumping
  jumps over the rest of a verified clone it has emitted; the clones emitted so far start
  before frame \<open>i\<close> of Y, no two at the same frame; and every maximal pair that starts
  before frame \<open>i\<close> of Y has been emitted.
\<close>

definition second_pass ::
  "(string \<Rightarrow> nat) \<Rightarrow> nat \<Rightarrow> corpus \<Rightarrow> source_file \<Rightarrow> source_file \<Rightarrow> nat \<Rightarrow> scan_state \<Rightarrow> bool" where
  "second_pass hash m cp X Y i st =
     ((\<forall>j. i \<le> j \<and> j < nframes m (significant (file_tokens Y)) \<longrightarrow>
          scan_store st (hash (concat (keys_from (significant (file_tokens Y)) j m)))
          = map_of (map (\<lambda>F. (frame_id F, F)) (buildFrames hash m (file_sourceId X) (file_tokens X)))
              (hash (concat (keys_from (significant (file_tokens Y)) j m))))
      \<and> (skip st > 0 \<longrightarrow>
           (\<exists>c \<in> set (emitted st). verified hash m cp c \<and> a_sourceId c = file_sourceId X
              \<and> b_sourceId c = file_sourceId Y \<and> b_first c < i
              \<and> b_first c + extensions c = i + skip st - 1))
      \<and> (\<forall>c \<in> set (emitted st). b_first c < i)
      \<and> distinct (map b_first (emitted st))
      \<and> (\<forall>p q n. maximal_pair m (significant (file_tokens X)) (significant (file_tokens Y)) p q n
              \<and> q < i \<longrightarrow> pair_clone m X p Y q n \<in> set (emitted st)))"

section \<open>Concrete objects\<close>

definition demo_location :: "string \<Rightarrow> nat \<Rightarrow> clone_location" where
  "demo_location file l =
     \<lparr>sourceId = Some file,
      start = Some \<lparr>line = l, column = 1, position = 0\<rparr>,
      end_loc = Some \<lparr>line = l + 9, column = 1, position = 80\<rparr>,
      range_loc = (0, 200),
      fragment = Some ''function f() { return 1; }''\<rparr>"

definition demo_clone :: clone_obj where
  "demo_clone =
     \<lparr>format = Some ''typescript'', foundDate = Some 0,
      duplicationA = Some (demo_location ''a.ts'' 1),
      duplicationB = Some (demo_location ''b.ts'' 21),
      semanticAnalysis = None, refactoringSuggestion = None, explanation = None,
      aiProcessed = None\<rparr>"

definition demo_suggestion :: "string \<Rightarrow> refactoring_suggestion" where
  "demo_suggestion ty = \<lparr>suggestion_type = ty, description = ''d'', reasoning = ''r''\<rparr>"

definition demo_service :: ollama_service where
  "demo_service =
     \<lparr>model = ''gemma3:1b'',
      analyzeSementicSimilarity =
        (\<lambda>c1 c2 lang. Inr \<lparr>similarityScore = 90, functionallyEquivalent = True,
                             analysis_reasoning = ''same body''\<rparr>),
      generateRefactoringSuggestion = (\<lambda>ds lang. Inr (demo_suggestion ''extract-function'')),
      explainDuplication = (\<lambda>code locs lang. Inl ServiceError)\<rparr>"

definition demo_statistic :: statistic where
  "demo_statistic =
     \<lparr>total = Some \<lparr>lines = 100, percentage = 20\<rparr>,
      formats = Some [(''typescript'', \<lparr>lines = 100, percentage = 20\<rparr>)]\<rparr>"

definition demo_world :: world where
  "demo_world =
     \<lparr>files = Map.empty, dirs = {}, io_fails = (\<lambda>p. False),
      path_dirname = (\<lambda>p. ''.''), path_join = (\<lambda>d f. d @ ''/'' @ f),
      now = 0, prompt_calls = [], timers = [], next_timer = 0\<rparr>"

definition demo_options :: "report_format \<Rightarrow> constructor_options" where
  "demo_options f =
     \<lparr>global_output = Some ''out'',
      reportersOptions_ai = Some (no_ai_options\<lparr>in_format := Some f\<rparr>)\<rparr>"

text \<open>Four collected clones: two without a suggestion kind of their own, three with one.\<close>

definition demo_heap :: heap where
  "demo_heap =
     [demo_clone\<lparr>refactoringSuggestion := Some (demo_suggestion ''extract-class'')\<rparr>,
      demo_clone\<lparr>refactoringSuggestion := Some (demo_suggestion ''create-module'')\<rparr>,
      demo_clone,
      demo_clone\<lparr>refactoringSuggestion := Some (demo_suggestion ''inline'')\<rparr>]"

definition demo_reporter :: ai_reporter where
  "demo_reporter = (AIReporter_new (demo_options Json) (Some demo_service))\<lparr>clones := [0, 1, 2, 3]\<rparr>"

definition demo_acts1 :: "reporter_action list" where
  "demo_acts1 = [Clone_found \<lparr>clone = Some 0, payload_sourceId = None\<rparr>]"

definition demo_acts2 :: "reporter_action list" where
  "demo_acts2 = [Task_runs 0 1]"

text \<open>
  Where \<^verbatim>\<open>saveReportSync\<close> writes for the formats it has a branch for, what it writes
  there, and the paths its file system calls and the prompt generator touch.
\<close>

definition written_path :: "ai_reporter \<Rightarrow> string" where
  "written_path r =
     (case report_format (options r) of
        Markdown \<Rightarrow> replace_first ''.json'' ''.md'' (report_path r)
      | _ \<Rightarrow> report_path r)"

definition written_content :: "ai_reporter \<Rightarrow> ai_report \<Rightarrow> file_content" where
  "written_content r rep =
     (case report_format (options r) of
        Markdown \<Rightarrow> Markdown_report rep
      | _ \<Rightarrow> Json_report rep)"

definition io_accepts :: "ai_reporter \<Rightarrow> world \<Rightarrow> bool" where
  "io_accepts r w =
     (\<not> io_fails w (or_else (output_path (options r)) ''.'')
      \<and> \<not> io_fails w (written_path r)
      \<and> \<not> io_fails w (prompt_path r w))"

definition demo_json_reporter :: ai_reporter where
  "demo_json_reporter =
     (AIReporter_new (demo_options Json) (Some demo_service))
       \<lparr>clones := [0], processedCount := 1, statistic_of := Some demo_statistic\<rparr>"

definition demo_future :: future where
  "demo_future = \<lparr>pushed_later = [], tasks_tail_ok = True, catch_handler_ok = True\<rparr>"




text \<open>
  A whole life of a reporter with the format \<open>f\<close>: it is constructed, \<open>acts\<close> happen,
  \<^verbatim>\<open>report()\<close> is called, and \<^verbatim>\<open>processAllAITasks\<close> runs to its end. The promises
  pushed by \<^verbatim>\<open>collectClone\<close> carry a \<^verbatim>\<open>.catch\<close>, so each of them is fulfilled when it
  is settled.
\<close>

definition demo_finish ::
  "report_format \<Rightarrow> reporter_action list \<Rightarrow> heap \<times> ai_reporter \<times> (error + world)" where
  "demo_finish f acts =
     (let s = reporter_run acts ([demo_clone], AIReporter_new (demo_options f) (Some demo_service));
          rep = report (fst s) [0] (Some demo_statistic) demo_future (snd s) demo_world
      in case snd rep of
           Inl e \<Rightarrow> (fst s, fst rep, Inl e)
         | Inr w1 \<Rightarrow>
             (case processAllAITasks (fst s)
                     (map (\<lambda>p. Fulfilled) (aiProcessingPromises (fst rep))) (fst rep) w1 of
                (r2, res) \<Rightarrow> (fst s, r2, res)))"

text \<open>A clone is found, Ollama turns out not to be available, and the task of the clone runs.\<close>

definition demo_acts_unavailable :: "reporter_action list" where
  "demo_acts_unavailable =
     [Clone_found \<lparr>clone = Some 0, payload_sourceId = None\<rparr>, Availability_checked False,
      Task_runs 0 1]"

definition demo_report :: ai_report where
  "demo_report = generateReport demo_heap demo_reporter 0 demo_statistic"

text \<open>
  Two updaters that push to \<^verbatim>\<open>report.recommendations\<close>, which throws a TypeError on a
  value that has no such array.
\<close>

definition demo_u1 :: updater where
  "demo_u1 v =
     (case v of
        Report_value rep \<Rightarrow>
          Inr (Report_value (rep\<lparr>recommendations := recommendations rep @ [MultipleOpportunities]\<rparr>))
      | _ \<Rightarrow> Inl TypeError)"

definition demo_u2 :: updater where
  "demo_u2 v =
     (case v of
        Report_value rep \<Rightarrow>
          Inr (Report_value (rep\<lparr>recommendations := recommendations rep @ [InstallOllama]\<rparr>))
      | _ \<Rightarrow> Inl TypeError)"

definition demo_writer :: progressive_writer where
  "demo_writer =
     ProgressiveWriter_new \<lparr>opt_outputPath = ''out/report.json'', opt_updateInterval = None\<rparr>"

text \<open>
  Files for the matcher: one token per mask key, each one byte wide and on a line of
  its own, the mask key being the byte.
\<close>

definition demo_tokens :: "string list \<Rightarrow> sig_token list" where
  "demo_tokens ks =
     map (\<lambda>(i, k). \<lparr>maskKey = k,
                     tok_start = \<lparr>line = i + 1, column = 1, position = i\<rparr>,
                     tok_end = \<lparr>line = i + 1, column = 2, position = i + 1\<rparr>\<rparr>)
         (enumerate 0 ks)"

definition demo_file :: "string \<Rightarrow> string list \<Rightarrow> source_file" where
  "demo_file sid ks =
     \<lparr>file_sourceId = sid, file_format = ''javascript'', file_source = concat ks,
      file_tokens = demo_tokens ks\<rparr>"

definition demo_hash :: "string \<Rightarrow> nat" where
  "demo_hash s = foldl (\<lambda>h c. (h * 31 + of_char c) mod 1000003) 0 s"

definition demo_a_js :: source_file where
  "demo_a_js = demo_file ''a.js'' [''X'', ''Y'', ''Z'', ''W'', ''V'']"

definition demo_b_js :: source_file where
  "demo_b_js = demo_file ''b.js'' [''X'', ''Y'', ''Z'', ''Q'', ''R'']"


definition demo_x_js :: source_file where
  "demo_x_js = demo_file ''x.js'' [''a'', ''b'', ''x'', ''a'', ''b'']"

definition demo_y_js :: source_file where
  "demo_y_js = demo_file ''y.js'' [''a'', ''b'']"






text \<open>The three buckets of a suggestion type.\<close>

definition is_high :: "clone_obj \<Rightarrow> bool" where
  "is_high c =
     (case refactoringSuggestion c of None \<Rightarrow> False
      | Some s \<Rightarrow> suggestion_type s = ''extract-function'' \<or> suggestion_type s = ''extract-class'')"

definition is_medium :: "clone_obj \<Rightarrow> bool" where
  "is_medium c =
     (case refactoringSuggestion c of None \<Rightarrow> False
      | Some s \<Rightarrow> suggestion_type s = ''create-module'')"

definition is_low :: "clone_obj \<Rightarrow> bool" where
  "is_low c =
     (case refactoringSuggestion c of None \<Rightarrow> False
      | Some s \<Rightarrow> suggestion_type s \<noteq> ''extract-function'' \<and> suggestion_type s \<noteq> ''extract-class''
                 \<and> suggestion_type s \<noteq> ''create-module'')"

definition has_suggestion :: "clone_obj \<Rightarrow> bool" where
  "has_suggestion c = (refactoringSuggestion c \<noteq> None)"

section \<open>Properties of the report\<close>

lemma foldl_count_priority:
  "foldl count_priority (hi, me, lo) cs =
     (hi + length (filter is_high cs), me + length (filter is_medium cs),
      lo + length (filter is_low cs))"
proof (induction cs arbitrary: hi me lo)
  case Nil
  show ?case by simp
next
  case (Cons c cs)
  show ?case
    by (cases "refactoringSuggestion c")
       (simp_all add: Cons.IH is_high_def is_medium_def is_low_def Let_def)
qed

lemma buckets_partition:
  "length (filter is_high cs) + length (filter is_medium cs) + length (filter is_low cs)
     = length (filter has_suggestion cs)"
proof (induction cs)
  case Nil
  show ?case by simp
next
  case (Cons c cs)
  then show ?case
    by (cases "refactoringSuggestion c")
       (auto simp: is_high_def is_medium_def is_low_def has_suggestion_def)
qed

lemma bucket_exclusive:
  "has_suggestion c \<Longrightarrow>
     (is_high c \<and> \<not> is_medium c \<and> \<not> is_low c)
   \<or> (\<not> is_high c \<and> is_medium c \<and> \<not> is_low c)
   \<or> (\<not> is_high c \<and> \<not> is_medium c \<and> is_low c)"
  by (cases "refactoringSuggestion c")
     (auto simp: is_high_def is_medium_def is_low_def has_suggestion_def)

text \<open>
  Claim C9. In the report that \<^verbatim>\<open>generateReport\<close> builds, the total number of
  suggestions is the sum of the three priority counters and is the number of collected
  clones that carry a refactoring suggestion. The high counter counts the clones whose
  suggestion type is \<^verbatim>\<open>extract-function\<close> or \<^verbatim>\<open>extract-class\<close>, the medium counter
  those of type \<^verbatim>\<open>create-module\<close>, the low counter every other type, and a clone with
  a suggestion falls in exactly one of the three buckets.
\<close>

theorem generateReport_refactoringSummary:
  fixes h r t st
  defines "rs \<equiv> refactoringSummary (generateReport h r t st)"
  defines "cs \<equiv> the_clones h r"
  shows "totalSuggestions rs = highPriority rs + mediumPriority rs + lowPriority rs
       \<and> totalSuggestions rs = length (filter has_suggestion cs)
       \<and> highPriority rs = length (filter is_high cs)
       \<and> mediumPriority rs = length (filter is_medium cs)
       \<and> lowPriority rs = length (filter is_low cs)
       \<and> (\<forall>c \<in> set cs. has_suggestion c \<longrightarrow>
            (is_high c \<and> \<not> is_medium c \<and> \<not> is_low c)
          \<or> (\<not> is_high c \<and> is_medium c \<and> \<not> is_low c)
          \<or> (\<not> is_high c \<and> \<not> is_medium c \<and> is_low c))"
proof -
  have fold: "foldl count_priority (0, 0, 0) cs =
      (length (filter is_high cs), length (filter is_medium cs), length (filter is_low cs))"
    using foldl_count_priority [of 0 0 0 cs] by simp
  have rs: "rs = \<lparr>highPriority = length (filter is_high cs),
                  mediumPriority = length (filter is_medium cs),
                  lowPriority = length (filter is_low cs),
                  totalSuggestions = length (filter is_high cs) + length (filter is_medium cs)
                                     + length (filter is_low cs)\<rparr>"
    unfolding rs_def generateReport_def calculateRefactoringSummary_def Let_def
    using fold by (simp add: cs_def)
  show ?thesis
    using buckets_partition [of cs] bucket_exclusive by (simp add: rs)
qed

lemma demo_the_clones: "the_clones demo_heap demo_reporter = demo_heap"
  by (simp add: the_clones_def demo_reporter_def demo_heap_def deref_def)

theorem generateReport_refactoringSummary_witness:
  "totalSuggestions (refactoringSummary (generateReport demo_heap demo_reporter 0 demo_statistic)) = 3
   \<and> highPriority (refactoringSummary (generateReport demo_heap demo_reporter 0 demo_statistic)) = 1
   \<and> mediumPriority (refactoringSummary (generateReport demo_heap demo_reporter 0 demo_statistic)) = 1
   \<and> lowPriority (refactoringSummary (generateReport demo_heap demo_reporter 0 demo_statistic)) = 1
   \<and> length (filter has_suggestion (the_clones demo_heap demo_reporter)) = 3
   \<and> is_low (demo_heap ! 3) \<and> \<not> is_high (demo_heap ! 3) \<and> \<not> is_medium (demo_heap ! 3)"
  using generateReport_refactoringSummary [of demo_heap demo_reporter 0 demo_statistic]
  by (simp add: demo_the_clones)
     (simp add: demo_heap_def demo_clone_def demo_suggestion_def has_suggestion_def
        is_high_def is_medium_def is_low_def)

section \<open>The subscription\<close>

text \<open>
  Claim C7. \<^verbatim>\<open>subscribe()\<close> returns a mapping whose only key is \<^verbatim>\<open>CLONE_FOUND\<close>.
  Its handler, given a payload, appends a clone to the collection of the reporter exactly
  when the payload has a \<^verbatim>\<open>clone\<close> field: then the collection grows by the address of
  the copy made of that clone, and without the field the heap and the reporter stay as
  they are.
\<close>

theorem subscribe_CLONE_FOUND:
  "dom subscribe = {''CLONE_FOUND''}
   \<and> (\<forall>handler. subscribe ''CLONE_FOUND'' = Some handler \<longrightarrow>
        (case clone payload of
           None \<Rightarrow> handler payload (h, r) = (h, r)
         | Some a \<Rightarrow>
             fst (handler payload (h, r)) = h @ [(deref h a)\<lparr>aiProcessed := Some False\<rparr>]
             \<and> clones (snd (handler payload (h, r))) = clones r @ [length h])
        \<and> (clones (snd (handler payload (h, r))) \<noteq> clones r \<longleftrightarrow> clone payload \<noteq> None))"
  by (auto simp: subscribe_def CLONE_FOUND_handler_def collectClone_def Let_def
           split: option.splits)

theorem subscribe_CLONE_FOUND_witness:
  "dom subscribe = {''CLONE_FOUND''}
   \<and> subscribe ''CLONE_FOUND'' = Some CLONE_FOUND_handler
   \<and> the_clones (fst (CLONE_FOUND_handler \<lparr>clone = Some 2, payload_sourceId = None\<rparr> (demo_heap, demo_reporter)))
        (snd (CLONE_FOUND_handler \<lparr>clone = Some 2, payload_sourceId = None\<rparr> (demo_heap, demo_reporter)))
      = demo_heap @ [demo_clone\<lparr>aiProcessed := Some False\<rparr>]
   \<and> CLONE_FOUND_handler \<lparr>clone = None, payload_sourceId = Some ''a.ts''\<rparr> (demo_heap, demo_reporter)
      = (demo_heap, demo_reporter)"
  using subscribe_CLONE_FOUND [of "\<lparr>clone = Some 2, payload_sourceId = None\<rparr>" demo_heap demo_reporter]
    subscribe_CLONE_FOUND [of "\<lparr>clone = None, payload_sourceId = Some ''a.ts''\<rparr>" demo_heap demo_reporter]
  by (simp add: subscribe_def the_clones_def demo_reporter_def deref_def demo_heap_def nth_append)

section \<open>The received clones stay as they are\<close>

lemma length_assign [simp]: "length (assign a' f h) = length h"
  by (simp add: assign_def)

lemma deref_assign_other: "b \<noteq> a' \<Longrightarrow> deref (assign a' f h) b = deref h b"
  by (simp add: assign_def deref_def)

lemma deref_assign_same: "deref (assign a' f h) a' = (if a' < length h then f (deref h a') else deref h a')"
  by (simp add: assign_def deref_def)

lemma length_processCloneWithAI [simp]: "length (processCloneWithAI r a a' h) = length h"
  by (simp add: processCloneWithAI_def Let_def)

lemma processCloneWithAI_other:
  "b \<noteq> a' \<Longrightarrow> deref (processCloneWithAI r a a' h) b = deref h b"
  by (simp add: processCloneWithAI_def Let_def deref_assign_other)

lemma processCloneWithAI_same:
  "enhance None None None None (deref (processCloneWithAI r a a' h) a')
     = enhance None None None None (deref h a')"
  by (simp add: processCloneWithAI_def Let_def deref_assign_same enhance_def)

lemma deref_append_old: "b < length h \<Longrightarrow> deref (h @ xs) b = deref h b"
  by (simp add: deref_def nth_append)

lemma task_target_started:
  "task_started a a' r \<Longrightarrow> list_all (\<lambda>p. case task_target p of None \<Rightarrow> True | Some a' \<Rightarrow> a' \<in> set (clones r))
             (aiProcessingPromises r) \<Longrightarrow> a' \<in> set (clones r)"
  by (force simp: task_started_def list_all_iff)

lemma reporter_step_frame:
  assumes "owns_its_copies (h, r)" and "b < length h" and "b \<notin> set (clones r)"
  shows "deref (fst (reporter_step (h, r) act)) b = deref h b
         \<and> b \<notin> set (clones (snd (reporter_step (h, r) act)))"
proof (cases act)
  case (Allocates c)
  with assms show ?thesis by (simp add: deref_append_old)
next
  case (Clone_found payload)
  with assms show ?thesis
    by (auto simp: CLONE_FOUND_handler_def collectClone_def Let_def deref_append_old
             split: option.splits)
next
  case (Availability_checked x)
  with assms show ?thesis by (simp add: availability_checked_def)
next
  case (Task_runs a a')
  show ?thesis
  proof (cases "task_started a a' r")
    case True
    with assms have "a' \<in> set (clones r)"
      by (auto simp: owns_its_copies_def dest: task_target_started)
    with assms have "b \<noteq> a'" by auto
    with Task_runs True assms show ?thesis by (simp add: processCloneWithAI_other)
  next
    case False
    with Task_runs assms show ?thesis by simp
  qed
qed

lemma reporter_step_owns:
  assumes "owns_its_copies (h, r)"
  shows "owns_its_copies (reporter_step (h, r) act)
         \<and> length h \<le> length (fst (reporter_step (h, r) act))"
proof (cases act)
  case (Allocates c)
  with assms show ?thesis by (auto simp: owns_its_copies_def list_all_iff)
next
  case (Clone_found payload)
  with assms show ?thesis
    by (auto simp: CLONE_FOUND_handler_def collectClone_def Let_def owns_its_copies_def
          list_all_iff split: option.splits)
next
  case (Availability_checked x)
  with assms show ?thesis
    by (auto simp: availability_checked_def owns_its_copies_def list_all_iff split: option.splits)
next
  case (Task_runs a a')
  with assms show ?thesis by (auto simp: owns_its_copies_def list_all_iff split: option.splits)
qed

lemma reporter_run_frame:
  "owns_its_copies s \<Longrightarrow> b < length (fst s) \<Longrightarrow> b \<notin> set (clones (snd s)) \<Longrightarrow>
     deref (fst (reporter_run acts s)) b = deref (fst s) b"
proof (induction acts arbitrary: s)
  case Nil
  show ?case by (simp add: reporter_run_def)
next
  case (Cons act acts)
  obtain h r where s: "s = (h, r)" by (cases s)
  let ?s' = "reporter_step (h, r) act"
  from Cons.prems s have a: "owns_its_copies (h, r)" "b < length h" "b \<notin> set (clones r)"
    by simp_all
  have f: "deref (fst ?s') b = deref h b" "b \<notin> set (clones (snd ?s'))"
    using reporter_step_frame [OF a] by simp_all
  have o: "owns_its_copies ?s'" "length h \<le> length (fst ?s')"
    using reporter_step_owns [OF a(1)] by simp_all
  have "deref (fst (reporter_run acts ?s')) b = deref (fst ?s') b"
    using Cons.IH [of ?s'] o f a by simp
  with f s show ?case by (simp add: reporter_run_def)
qed

lemma reporter_run_owns: "owns_its_copies s \<Longrightarrow> owns_its_copies (reporter_run acts s)"
proof (induction acts arbitrary: s)
  case Nil
  then show ?case by (simp add: reporter_run_def)
next
  case (Cons act acts)
  obtain h r where s: "s = (h, r)" by (cases s)
  with Cons.prems have "owns_its_copies (reporter_step s act)"
    using reporter_step_owns [of h r act] by simp
  from Cons.IH [OF this] show ?case by (simp add: reporter_run_def)
qed

lemma owns_its_copies_new: "owns_its_copies (h0, AIReporter_new opts svc)"
  by (simp add: owns_its_copies_def AIReporter_new_def Let_def)

text \<open>
  Claim C4. Take a new reporter on any heap and let anything happen to it: clones are
  allocated and delivered in \<^verbatim>\<open>CLONE_FOUND\<close> payloads, the availability check returns,
  background tasks run. At any later moment, every object of the heap that is not one of
  the reporter's own copies, so every clone it has received, is from then on what it was.
  \<^verbatim>\<open>collectClone\<close> appends a copy of the received clone at a fresh address, with
  \<^verbatim>\<open>aiProcessed\<close> false, and stores that address; \<^verbatim>\<open>processCloneWithAI\<close> changes no
  object but the copy, and of the copy nothing but the fields \<^verbatim>\<open>semanticAnalysis\<close>,
  \<^verbatim>\<open>refactoringSuggestion\<close>, \<^verbatim>\<open>explanation\<close> and \<^verbatim>\<open>aiProcessed\<close>.
\<close>

theorem AIReporter_leaves_received_clones_unchanged:
  fixes h0 opts svc acts1 acts2
  defines "s1 \<equiv> reporter_run acts1 (h0, AIReporter_new opts svc)"
  defines "s2 \<equiv> reporter_run acts2 s1"
  shows "(\<forall>b < length (fst s1). b \<notin> set (clones (snd s1)) \<longrightarrow> deref (fst s2) b = deref (fst s1) b)
       \<and> (\<forall>a h r. fst (collectClone a (h, r)) = h @ [(deref h a)\<lparr>aiProcessed := Some False\<rparr>]
                  \<and> clones (snd (collectClone a (h, r))) = clones r @ [length h])
       \<and> (\<forall>r a a' h b. b \<noteq> a' \<longrightarrow> deref (processCloneWithAI r a a' h) b = deref h b)
       \<and> (\<forall>r a a' h. enhance None None None None (deref (processCloneWithAI r a a' h) a')
                        = enhance None None None None (deref h a'))"
proof -
  have "owns_its_copies s1"
    unfolding s1_def by (rule reporter_run_owns [OF owns_its_copies_new])
  then have "\<forall>b < length (fst s1). b \<notin> set (clones (snd s1)) \<longrightarrow> deref (fst s2) b = deref (fst s1) b"
    unfolding s2_def by (simp add: reporter_run_frame)
  moreover have "\<forall>a h r. fst (collectClone a (h, r)) = h @ [(deref h a)\<lparr>aiProcessed := Some False\<rparr>]
                  \<and> clones (snd (collectClone a (h, r))) = clones r @ [length h]"
    by (simp add: collectClone_def Let_def)
  ultimately show ?thesis
    using processCloneWithAI_other processCloneWithAI_same by blast
qed


lemma demo_s1:
  "reporter_run demo_acts1 ([demo_clone], AIReporter_new (demo_options Json) (Some demo_service))
   = ([demo_clone, demo_clone\<lparr>aiProcessed := Some False\<rparr>],
      (AIReporter_new (demo_options Json) (Some demo_service))
        \<lparr>clones := [1], aiProcessingPromises := [Promise_catch (Async (ProcessCloneWithAI 0 1)) True]\<rparr>)"
  by (simp add: reporter_run_def demo_acts1_def CLONE_FOUND_handler_def collectClone_def Let_def
       deref_def AIReporter_new_def)


lemma demo_s2:
  "fst (reporter_run demo_acts2 (reporter_run demo_acts1 ([demo_clone], AIReporter_new (demo_options Json) (Some demo_service))))
   = [demo_clone,
      demo_clone\<lparr>semanticAnalysis := Some \<lparr>similarityScore = 90, functionallyEquivalent = True,
                             analysis_reasoning = ''same body''\<rparr>,
                 refactoringSuggestion := Some (demo_suggestion ''extract-function''),
                 aiProcessed := Some True\<rparr>]"
  apply (simp add: demo_s1)
  apply (simp add: reporter_run_def demo_acts2_def task_started_def processCloneWithAI_def Let_def
       shouldUseAI_def AIReporter_new_def demo_options_def no_ai_options_def assign_def deref_def
       analyzeSemantics_def generateRefactoring_def demo_service_def demo_clone_def or_else_def
       demo_location_def line_or_0_def)
  done

theorem AIReporter_leaves_received_clones_unchanged_witness:
  "deref (fst (reporter_run demo_acts2 (reporter_run demo_acts1
       ([demo_clone], AIReporter_new (demo_options Json) (Some demo_service))))) 0 = demo_clone
   \<and> aiProcessed (deref (fst (reporter_run demo_acts2 (reporter_run demo_acts1
       ([demo_clone], AIReporter_new (demo_options Json) (Some demo_service))))) 1) = Some True"
  using AIReporter_leaves_received_clones_unchanged
          [of demo_acts1 "[demo_clone]" "demo_options Json" "Some demo_service" demo_acts2]
  by (simp add: demo_s2) (simp add: deref_def)

section \<open>The gate of finalize\<close>

lemma forEach_results_counts:
  "forEach_results h n i results (r, w) = (r', w') \<Longrightarrow>
     processedCount r' = processedCount r + length (filter (\<lambda>x. x = Fulfilled) results)
   \<and> failedCount r' = failedCount r + length (filter (\<lambda>x. x \<noteq> Fulfilled) results)
   \<and> clones r' = clones r \<and> options r' = options r \<and> statistic_of r' = statistic_of r
   \<and> ollamaService r' = ollamaService r"
proof (induction results arbitrary: i r w)
  case Nil
  then show ?case by simp
next
  case (Cons res rest)
  show ?case
  proof (cases "res = Fulfilled")
    case True
    with Cons.prems Cons.IH [of "i + 1" "r\<lparr>processedCount := processedCount r + 1\<rparr>"] show ?thesis
      by (simp add: Let_def)
  next
    case False
    with Cons.prems Cons.IH [of "i + 1" "r\<lparr>failedCount := failedCount r + 1\<rparr>"] show ?thesis
      by simp
  qed
qed

lemma saveReportSync_written:
  assumes "report_format (options r) \<noteq> Html"
    and "\<not> io_fails w (or_else (output_path (options r)) ''.'')"
    and "\<not> io_fails w (written_path r)"
  shows "\<exists>w1. saveReportSync r rep w = Inr w1
           \<and> files w1 = (files w)(written_path r \<mapsto> written_content r rep)
           \<and> io_fails w1 = io_fails w \<and> prompt_calls w1 = prompt_calls w
           \<and> path_join w1 = path_join w \<and> path_dirname w1 = path_dirname w"
  using assms
  by (cases "report_format (options r)")
     (auto simp: saveReportSync_def Let_def ensureDirSync_def writeFileSync_def written_path_def
        written_content_def)

text \<open>
  What \<^verbatim>\<open>finalize\<close> does. After the results of the tasks are counted (the counters
  of the reporter grow by the numbers of fulfilled and of rejected results), when more
  than half of the collected clones failed, \<^verbatim>\<open>finalize\<close> leaves the world as it is: it
  writes no report and no guide. So it does when no output path is configured. Otherwise,
  when the format is \<^verbatim>\<open>json\<close> or \<^verbatim>\<open>markdown\<close> and the file system accepts the calls,
  \<^verbatim>\<open>finalize\<close> returns, the report is in the file it is written to and no other file has
  changed, and the prompt generator is called, once, exactly when \<^verbatim>\<open>processedCount > 0\<close>.
\<close>

lemma finalize_gate:
  fixes h r w st
  assumes st: "statistic_of r = Some st"
  defines "rep \<equiv> generateReport h r (now w) st"
  shows "(failureRate_high r \<longrightarrow> finalize h r w = Inr w)
       \<and> (\<not> failureRate_high r \<and> \<not> truthy (output_path (options r)) \<longrightarrow> finalize h r w = Inr w)
       \<and> (\<not> failureRate_high r \<and> truthy (output_path (options r))
            \<and> report_format (options r) \<noteq> Html \<and> io_accepts r w \<longrightarrow>
           (case finalize h r w of
              Inl e \<Rightarrow> False
            | Inr w' \<Rightarrow>
                files w' = (files w)(written_path r \<mapsto> written_content r rep)
                \<and> prompt_calls w' =
                    (if processedCount r > 0 then prompt_calls w @ [guide_call r rep w]
                     else prompt_calls w)))
       \<and> (\<forall>results r0 w0. fst (processAllAITasks h results r0 w0) = r \<longrightarrow>
             processedCount r = processedCount r0 + length (filter (\<lambda>x. x = Fulfilled) results)
           \<and> failedCount r = failedCount r0 + length (filter (\<lambda>x. x \<noteq> Fulfilled) results)
           \<and> clones r = clones r0)"
proof -
  have a: "failureRate_high r \<longrightarrow> finalize h r w = Inr w"
    using st by (simp add: finalize_def)
  have b: "\<not> failureRate_high r \<and> \<not> truthy (output_path (options r)) \<longrightarrow> finalize h r w = Inr w"
    using st by (simp add: finalize_def)
  have c: "\<not> failureRate_high r \<and> truthy (output_path (options r))
            \<and> report_format (options r) \<noteq> Html \<and> io_accepts r w \<longrightarrow>
           (case finalize h r w of
              Inl e \<Rightarrow> False
            | Inr w' \<Rightarrow>
                files w' = (files w)(written_path r \<mapsto> written_content r rep)
                \<and> prompt_calls w' =
                    (if processedCount r > 0 then prompt_calls w @ [guide_call r rep w]
                     else prompt_calls w))"
  proof (intro impI, elim conjE)
    assume h: "\<not> failureRate_high r" "truthy (output_path (options r))"
      "report_format (options r) \<noteq> Html" "io_accepts r w"
    from h(3,4) obtain w1 where w1: "saveReportSync r rep w = Inr w1"
      "files w1 = (files w)(written_path r \<mapsto> written_content r rep)"
      "io_fails w1 = io_fails w" "prompt_calls w1 = prompt_calls w"
      "path_join w1 = path_join w" "path_dirname w1 = path_dirname w"
      using saveReportSync_written [of r w rep] by (auto simp: io_accepts_def)
    have pp: "prompt_path r w1 = prompt_path r w"
      by (simp add: prompt_path_def w1 split: option.splits)
    have gc: "guide_call r rep w1 = guide_call r rep w"
      by (simp add: guide_call_def pp)
    have "\<not> io_fails w1 (prompt_path r w1)"
      using h(4) by (simp add: io_accepts_def pp w1)
    then have "\<not> io_fails w1 (prompt_outputPath (guide_call r rep w))"
      by (simp add: guide_call_def pp)
    then have g: "generateAIPrompt r rep w1 = w1\<lparr>prompt_calls := prompt_calls w @ [guide_call r rep w]\<rparr>"
      unfolding generateAIPrompt_def gc by (simp add: writePrompt_def w1)
    show "case finalize h r w of
              Inl e \<Rightarrow> False
            | Inr w' \<Rightarrow>
                files w' = (files w)(written_path r \<mapsto> written_content r rep)
                \<and> prompt_calls w' =
                    (if processedCount r > 0 then prompt_calls w @ [guide_call r rep w]
                     else prompt_calls w)"
      using st h(1,2) w1(1,2,4) g by (simp add: finalize_def rep_def [symmetric] Let_def)
  qed
  have d: "\<forall>results r0 w0. fst (processAllAITasks h results r0 w0) = r \<longrightarrow>
             processedCount r = processedCount r0 + length (filter (\<lambda>x. x = Fulfilled) results)
           \<and> failedCount r = failedCount r0 + length (filter (\<lambda>x. x \<noteq> Fulfilled) results)
           \<and> clones r = clones r0"
  proof (intro allI impI)
    fix results r0 w0
    assume p: "fst (processAllAITasks h results r0 w0) = r"
    obtain r' w' where f: "forEach_results h (length results) 0 results (r0, w0) = (r', w')"
      by (cases "forEach_results h (length results) 0 results (r0, w0)")
    with p have "r' = r" by (simp add: processAllAITasks_def)
    with forEach_results_counts [OF f]
    show "processedCount r = processedCount r0 + length (filter (\<lambda>x. x = Fulfilled) results)
           \<and> failedCount r = failedCount r0 + length (filter (\<lambda>x. x \<noteq> Fulfilled) results)
           \<and> clones r = clones r0" by simp
  qed
  from a b c d show ?thesis by blast
qed

lemmas demo_simps =
  AIReporter_new_def demo_options_def no_ai_options_def demo_world_def demo_statistic_def
  failureRate_high_def truthy_def or_else_def endsWith_def report_path_def written_path_def
  io_accepts_def prompt_path_def

lemma finalize_gate_witness:
  "statistic_of demo_json_reporter = Some demo_statistic
   \<and> \<not> failureRate_high demo_json_reporter
   \<and> truthy (output_path (options demo_json_reporter))
   \<and> io_accepts demo_json_reporter demo_world
   \<and> written_path demo_json_reporter = ''out/jscpd-ai-report.json''
   \<and> map_sum id (\<lambda>w. files w ''out/jscpd-ai-report.json'')
        (finalize [demo_clone] demo_json_reporter demo_world)
      = Inr (Some (Json_report (generateReport [demo_clone] demo_json_reporter 0 demo_statistic)))
   \<and> map_sum id (\<lambda>w. length (prompt_calls w)) (finalize [demo_clone] demo_json_reporter demo_world) = Inr 1
   \<and> finalize [demo_clone] (demo_json_reporter\<lparr>failedCount := 1\<rparr>) demo_world = Inr demo_world"
  using finalize_gate [of demo_json_reporter demo_statistic "[demo_clone]" demo_world]
    finalize_gate [of "demo_json_reporter\<lparr>failedCount := 1\<rparr>" demo_statistic "[demo_clone]" demo_world]
  by (simp add: demo_json_reporter_def demo_simps written_content_def split: sum.splits)

lemmas finish_simps =
  demo_finish_def reporter_run_def demo_acts1_def demo_acts2_def demo_acts_unavailable_def
  CLONE_FOUND_handler_def collectClone_def Let_def deref_def task_started_def
  processCloneWithAI_def shouldUseAI_def assign_def analyzeSemantics_def generateRefactoring_def
  demo_service_def demo_clone_def demo_location_def line_or_0_def availability_checked_def
  report_def generateAndSaveInitialReport_def saveReportSync_def ensureDirSync_def
  writeFileSync_def processAllAITasks_def updateReportWithAIResults_def finalize_def
  generateAIPrompt_def writePrompt_def guide_call_def

text \<open>
  Claim C8. The code departs from the claim at two inputs, each a whole life of a
  reporter with one clone, the output path \<^verbatim>\<open>out\<close> and a file system that accepts every
  call. With the format \<^verbatim>\<open>html\<close>, which \<^verbatim>\<open>AIReportOptions\<close> offers, no task has failed
  and the clone is AI-processed, yet no file is written at all: \<^verbatim>\<open>saveReportSync\<close> has
  a branch for \<^verbatim>\<open>json\<close> and one for \<^verbatim>\<open>markdown\<close> and none for \<^verbatim>\<open>html\<close>. The same
  life with the format \<^verbatim>\<open>json\<close> writes the report. And when Ollama is not available the
  task returns without an AI call, the clone keeps \<^verbatim>\<open>aiProcessed: false\<close>, and the
  fulfilled task is counted in \<^verbatim>\<open>processedCount\<close> all the same, so the refactoring
  guide is generated although no clone was AI-processed; the comment above the guard
  reads "if we have AI results".
\<close>

theorem finalize_html_and_unavailable:
  "(case demo_finish Html (demo_acts1 @ demo_acts2) of (h, r, res) \<Rightarrow>
      failedCount r = 0 \<and> processedCount r = 1 \<and> length (clones r) = 1
      \<and> output_path (options r) = Some ''out''
      \<and> aiProcessed (deref h 1) = Some True
      \<and> map_sum id files res = Inr Map.empty
      \<and> map_sum id (\<lambda>w. length (prompt_calls w)) res = Inr 1)
   \<and> (case demo_finish Json (demo_acts1 @ demo_acts2) of (h, r, res) \<Rightarrow>
      map_sum id (\<lambda>w. dom (files w)) res = Inr {''out/jscpd-ai-report.json''})
   \<and> (case demo_finish Json demo_acts_unavailable of (h, r, res) \<Rightarrow>
      failedCount r = 0 \<and> processedCount r = 1 \<and> ollamaService r = None
      \<and> map aiProcessed (map (deref h) (clones r)) = [Some False]
      \<and> map_sum id (\<lambda>w. length (prompt_calls w)) res = Inr 1)"
  by (simp add: finish_simps demo_simps)

section \<open>Waiting for completion\<close>















section \<open>The progressive writer never creates the report\<close>

lemma performUpdate_try_absent:
  "\<not> existsSync (outputPath pw) w \<Longrightarrow> performUpdate_try u (pw, w) = ((pw, w), None)"
  by (simp add: performUpdate_try_def)

lemma writeReportSync_frame:
  "writeReportSync pw rep w = (w', e) \<Longrightarrow>
     timers w' = timers w \<and> next_timer w' = next_timer w \<and> now w' = now w
     \<and> (\<forall>p. p \<noteq> outputPath pw \<longrightarrow> files w' p = files w p)"
  by (auto simp: writeReportSync_def ensureDirSync_def writeFileSync_def
           split: if_splits sum.splits)

lemma writeReportSync_keeps_absent:
  "writeReportSync pw rep w = (w', e) \<Longrightarrow> files w (outputPath pw) \<noteq> None \<Longrightarrow>
     files w p = None \<Longrightarrow> files w' p = None"
  using writeReportSync_frame [of pw rep w w' e] by (cases "p = outputPath pw") auto

lemma readFileSync_Inr: "readFileSync p w = Inr c \<Longrightarrow> files w p \<noteq> None"
  by (auto simp: readFileSync_def split: option.splits)

lemma performUpdate_frame:
  assumes "performUpdate u (pw, w) = (pw', w')"
  shows "outputPath pw' = outputPath pw \<and> pendingUpdate pw' = pendingUpdate pw
       \<and> updateInterval pw' = updateInterval pw
       \<and> timers w' = timers w \<and> next_timer w' = next_timer w
       \<and> (\<forall>p. files w p = None \<longrightarrow> files w' p = None)"
proof (cases "existsSync (outputPath pw) w")
  case False
  with assms show ?thesis by (simp add: performUpdate_def performUpdate_try_def)
next
  case True
  show ?thesis
  proof (cases "readFileSync (outputPath pw) w")
    case (Inl e)
    with assms True show ?thesis by (simp add: performUpdate_def performUpdate_try_def)
  next
    case (Inr content)
    note rd = readFileSync_Inr [OF Inr]
    show ?thesis
    proof (cases "JSON_parse content")
      case (Inl e)
      with assms True Inr show ?thesis by (simp add: performUpdate_def performUpdate_try_def)
    next
      case parsed: (Inr rep)
      show ?thesis
      proof (cases "u rep")
        case (Inl e)
        with assms True Inr parsed show ?thesis
          by (simp add: performUpdate_def performUpdate_try_def)
      next
        case upd: (Inr rep')
        obtain w1 e where wr: "writeReportSync pw rep' w = (w1, e)"
          by (cases "writeReportSync pw rep' w")
        with assms True Inr parsed upd have "w' = w1"
          "outputPath pw' = outputPath pw \<and> pendingUpdate pw' = pendingUpdate pw
            \<and> updateInterval pw' = updateInterval pw"
          by (auto simp: performUpdate_def performUpdate_try_def split: option.splits)
        with writeReportSync_frame [OF wr] writeReportSync_keeps_absent [OF wr rd]
        show ?thesis by simp
      qed
    qed
  qed
qed

lemma timer_callback_frame:
  assumes "timer_callback u (pw, w) = (pw', w')"
  shows "outputPath pw' = outputPath pw \<and> pendingUpdate pw' = None
       \<and> timers w' = timers w \<and> (\<forall>p. files w p = None \<longrightarrow> files w' p = None)"
proof -
  obtain pw1 w1 where p: "performUpdate u (pw, w) = (pw1, w1)"
    by (cases "performUpdate u (pw, w)")
  with assms have "pw' = pw1\<lparr>pendingUpdate := None\<rparr>" "w' = w1"
    by (simp_all add: timer_callback_def)
  with performUpdate_frame [OF p] show ?thesis by simp
qed

lemma foldl_timer_callback_frame:
  "foldl (\<lambda>s' tm. timer_callback (snd (snd tm)) s') (pw, w) due = (pw', w') \<Longrightarrow>
     outputPath pw' = outputPath pw \<and> timers w' = timers w
     \<and> (due \<noteq> [] \<longrightarrow> pendingUpdate pw' = None)
     \<and> (due = [] \<longrightarrow> pendingUpdate pw' = pendingUpdate pw)
     \<and> (\<forall>p. files w p = None \<longrightarrow> files w' p = None)"
proof (induction due arbitrary: pw w)
  case Nil
  then show ?case by simp
next
  case (Cons tm due)
  obtain pw1 w1 where c: "timer_callback (snd (snd tm)) (pw, w) = (pw1, w1)"
    by (cases "timer_callback (snd (snd tm)) (pw, w)")
  with Cons.prems have "foldl (\<lambda>s' tm. timer_callback (snd (snd tm)) s') (pw1, w1) due = (pw', w')"
    by simp
  from Cons.IH [OF this] timer_callback_frame [OF c] show ?case
    by (cases "due = []") auto
qed

lemma advance_frame:
  assumes "advance dt (pw, w) = (pw', w')"
  shows "outputPath pw' = outputPath pw \<and> (\<forall>p. files w p = None \<longrightarrow> files w' p = None)"
  using assms foldl_timer_callback_frame
    [of pw "w\<lparr>now := now w + int dt,
               timers := filter (\<lambda>tm. \<not> is_due (w\<lparr>now := now w + int dt\<rparr>) tm) (timers w)\<rparr>"
        "sort_key (\<lambda>tm. fst (snd tm)) (filter (is_due (w\<lparr>now := now w + int dt\<rparr>)) (timers w))" pw' w']
  by (simp add: advance_def Let_def)

lemma pw_step_no_create:
  assumes "\<not> is_WriteInitial ev" and "pw_step (pw, w) ev = (pw', w')"
  shows "outputPath pw' = outputPath pw \<and> (\<forall>p. files w p = None \<longrightarrow> files w' p = None)"
proof (cases ev)
  case (WriteInitial rep)
  with assms show ?thesis by simp
next
  case (UpdateReport u)
  with assms show ?thesis
    by (auto simp: updateReport_def setTimeout_def clearTimeout_def Let_def split: option.splits)
next
  case (Flush uo)
  show ?thesis
  proof (cases uo)
    case None
    with Flush assms show ?thesis
      by (auto simp: flush_def clearTimeout_def Let_def split: option.splits)
  next
    case (Some u)
    with Flush assms show ?thesis
      by (auto simp: flush_def clearTimeout_def Let_def split: option.splits
               dest!: performUpdate_frame)
  qed
next
  case (Advance dt)
  with assms advance_frame [of dt pw w pw' w'] show ?thesis by simp
qed

lemma pw_run_no_create:
  "\<not> list_ex is_WriteInitial evs \<Longrightarrow> pw_run evs (pw, w) = (pw', w') \<Longrightarrow>
     outputPath pw' = outputPath pw \<and> (\<forall>p. files w p = None \<longrightarrow> files w' p = None)"
proof (induction evs arbitrary: pw w)
  case Nil
  then show ?case by (simp add: pw_run_def)
next
  case (Cons ev evs)
  obtain pw1 w1 where s: "pw_step (pw, w) ev = (pw1, w1)" by (cases "pw_step (pw, w) ev")
  from Cons.prems have n: "\<not> is_WriteInitial ev" "\<not> list_ex is_WriteInitial evs" by simp_all
  from Cons.prems s have "pw_run evs (pw1, w1) = (pw', w')" by (simp add: pw_run_def)
  from Cons.IH [OF n(2) this] pw_step_no_create [OF n(1) s] show ?case by simp
qed

lemma one_pending_cleared:
  "one_pending (pw, w) \<Longrightarrow>
     timers (case pendingUpdate pw of Some t \<Rightarrow> clearTimeout t w | None \<Rightarrow> w) = []"
  by (cases "timers w"; cases "pendingUpdate pw")
     (auto simp: one_pending_def clearTimeout_def)

lemma updateReport_timers:
  assumes "one_pending (pw, w)"
  shows "timers (snd (updateReport u (pw, w)))
           = [(next_timer w, now w + max 0 (updateInterval pw - (now w - lastUpdate pw)), u)]
         \<and> pendingUpdate (fst (updateReport u (pw, w))) = Some (next_timer w)"
  using one_pending_cleared [OF assms]
  by (cases "pendingUpdate pw")
     (simp_all add: updateReport_def setTimeout_def Let_def clearTimeout_def)

lemma one_pending_updateReport: "one_pending s \<Longrightarrow> one_pending (updateReport u s)"
proof -
  assume a: "one_pending s"
  obtain pw w where s: "s = (pw, w)" by (cases s)
  obtain pw' w' where s': "updateReport u (pw, w) = (pw', w')" by (cases "updateReport u (pw, w)")
  from updateReport_timers [of pw w u] a s s' show ?thesis
    by (simp add: one_pending_def)
qed

lemma one_pending_writeInitial: "one_pending s \<Longrightarrow> one_pending (fst (writeInitial rep s))"
proof -
  assume a: "one_pending s"
  obtain pw w where s: "s = (pw, w)" by (cases s)
  obtain w1 e where wr: "writeReportSync pw (Report_value rep) w = (w1, e)"
    by (cases "writeReportSync pw (Report_value rep) w")
  from writeReportSync_frame [OF wr] a s wr show ?thesis
    by (cases e) (simp_all add: writeInitial_def one_pending_def)
qed

lemma one_pending_performUpdate: "one_pending s \<Longrightarrow> one_pending (performUpdate u s)"
proof -
  assume a: "one_pending s"
  obtain pw w where s: "s = (pw, w)" by (cases s)
  obtain pw' w' where p: "performUpdate u (pw, w) = (pw', w')" by (cases "performUpdate u (pw, w)")
  from performUpdate_frame [OF p] a s p show ?thesis by (simp add: one_pending_def)
qed

lemma one_pending_flush: "one_pending s \<Longrightarrow> one_pending (flush uo s)"
proof -
  assume a: "one_pending s"
  obtain pw w where s: "s = (pw, w)" by (cases s)
  let ?s1 = "case pendingUpdate pw of
               Some t \<Rightarrow> (pw\<lparr>pendingUpdate := None\<rparr>, clearTimeout t w)
             | None \<Rightarrow> (pw, w)"
  from one_pending_cleared [of pw w] a s have "one_pending ?s1"
    by (cases "pendingUpdate pw") (simp_all add: one_pending_def)
  then show ?thesis
    using s by (cases uo) (simp_all add: flush_def Let_def one_pending_performUpdate)
qed

lemma one_pending_advance: "one_pending s \<Longrightarrow> one_pending (advance dt s)"
proof -
  assume a: "one_pending s"
  obtain pw w where s: "s = (pw, w)" by (cases s)
  let ?w1 = "w\<lparr>now := now w + int dt\<rparr>"
  let ?due = "sort_key (\<lambda>tm. fst (snd tm)) (filter (is_due ?w1) (timers w))"
  let ?w2 = "?w1\<lparr>timers := filter (\<lambda>tm. \<not> is_due ?w1 tm) (timers w)\<rparr>"
  obtain pw' w' where f:
    "foldl (\<lambda>s' tm. timer_callback (snd (snd tm)) s') (pw, ?w2) ?due = (pw', w')"
    by (cases "foldl (\<lambda>s' tm. timer_callback (snd (snd tm)) s') (pw, ?w2) ?due")
  then have adv: "advance dt s = (pw', w')" by (simp add: advance_def s Let_def)
  note fr = foldl_timer_callback_frame [OF f]
  show ?thesis
  proof (cases "timers w")
    case Nil
    with fr show ?thesis by (simp add: adv one_pending_def)
  next
    case (Cons tm rest)
    with a s have rest: "rest = []" and pend: "pendingUpdate pw = Some (fst tm)"
      by (simp_all add: one_pending_def)
    show ?thesis
    proof (cases "is_due ?w1 tm")
      case True
      with Cons rest fr show ?thesis by (simp add: adv one_pending_def)
    next
      case False
      with Cons rest fr pend show ?thesis by (simp add: adv one_pending_def)
    qed
  qed
qed

lemma one_pending_step: "one_pending s \<Longrightarrow> one_pending (pw_step s ev)"
  by (cases ev)
     (simp_all add: one_pending_writeInitial one_pending_updateReport one_pending_flush
        one_pending_advance)

lemma one_pending_run: "one_pending s \<Longrightarrow> one_pending (pw_run evs s)"
  unfolding pw_run_def by (induction evs arbitrary: s) (simp_all add: one_pending_step)

lemma writeInitial_creates:
  assumes "\<not> io_fails w (path_dirname w (outputPath pw))" and "\<not> io_fails w (outputPath pw)"
  shows "files (snd (fst (writeInitial rep (pw, w)))) (outputPath pw) = Some (Json_report rep)
       \<and> snd (writeInitial rep (pw, w)) = None"
  using assms
  by (simp add: writeInitial_def writeReportSync_def ensureDirSync_def writeFileSync_def
        JSON_stringify_def)

text \<open>
  Claim C10. When the file at the output path does not exist, the body of
  \<^verbatim>\<open>performUpdate\<close> leaves the writer and the world as they are and ends without an
  exception. Along any sequence of calls of \<^verbatim>\<open>updateReport\<close> and \<^verbatim>\<open>flush\<close> and of
  timers firing, with no call of \<^verbatim>\<open>writeInitial\<close>, a report file that did not exist does
  not exist afterwards, while \<^verbatim>\<open>writeInitial\<close> creates it when the file system accepts
  the calls. And whatever has happened to a writer before, after a call of
  \<^verbatim>\<open>updateReport\<close> exactly one timer is pending, the one of this call: an updater that
  was pending before is cancelled and never applied.
\<close>

theorem updateReport_never_creates:
  fixes opts w0 evs u
  assumes "timers w0 = []"
  defines "s \<equiv> pw_run evs (ProgressiveWriter_new opts, w0)"
  shows "(\<forall>pw w. \<not> existsSync (outputPath pw) w \<longrightarrow> performUpdate_try u (pw, w) = ((pw, w), None))
       \<and> (\<not> list_ex is_WriteInitial evs \<and> files w0 (opt_outputPath opts) = None \<longrightarrow>
            files (snd s) (opt_outputPath opts) = None)
       \<and> (\<forall>pw w rep. \<not> io_fails w (path_dirname w (outputPath pw)) \<and> \<not> io_fails w (outputPath pw) \<longrightarrow>
            files (snd (fst (writeInitial rep (pw, w)))) (outputPath pw) = Some (Json_report rep))
       \<and> map (\<lambda>tm. snd (snd tm)) (timers (snd (updateReport u s))) = [u]
       \<and> one_pending (updateReport u s)"
proof -
  have a: "\<forall>pw w. \<not> existsSync (outputPath pw) w \<longrightarrow> performUpdate_try u (pw, w) = ((pw, w), None)"
    by (simp add: performUpdate_try_absent)
  have b: "\<not> list_ex is_WriteInitial evs \<and> files w0 (opt_outputPath opts) = None \<longrightarrow>
            files (snd s) (opt_outputPath opts) = None"
  proof
    assume h: "\<not> list_ex is_WriteInitial evs \<and> files w0 (opt_outputPath opts) = None"
    obtain pw' w' where r: "pw_run evs (ProgressiveWriter_new opts, w0) = (pw', w')"
      by (cases "pw_run evs (ProgressiveWriter_new opts, w0)")
    from pw_run_no_create [OF _ r] h have "files w' (opt_outputPath opts) = None" by simp
    with r show "files (snd s) (opt_outputPath opts) = None" by (simp add: s_def)
  qed
  have c: "\<forall>pw w rep. \<not> io_fails w (path_dirname w (outputPath pw)) \<and> \<not> io_fails w (outputPath pw) \<longrightarrow>
            files (snd (fst (writeInitial rep (pw, w)))) (outputPath pw) = Some (Json_report rep)"
    by (simp add: writeInitial_creates)
  have "one_pending (ProgressiveWriter_new opts, w0)"
    using assms(1) by (simp add: one_pending_def)
  then have inv: "one_pending s"
    unfolding s_def by (rule one_pending_run)
  obtain pw w where s: "s = (pw, w)" by (cases s)
  from inv s updateReport_timers [of pw w u]
  have d: "map (\<lambda>tm. snd (snd tm)) (timers (snd (updateReport u s))) = [u]" by simp
  have e: "one_pending (updateReport u s)"
    using inv by (rule one_pending_updateReport)
  show ?thesis
    by (intro conjI) (rule a, rule b, rule c, rule d, rule e)
qed

lemmas pw_simps =
  pw_run_def demo_writer_def ProgressiveWriter_new_def demo_world_def writeInitial_def
  writeReportSync_def ensureDirSync_def writeFileSync_def updateReport_def setTimeout_def
  clearTimeout_def advance_def is_due_def timer_callback_def performUpdate_def
  performUpdate_try_def existsSync_def readFileSync_def JSON_parse_def JSON_stringify_def Let_def

lemma demo_debounced:
  "files (snd (pw_run [WriteInitial demo_report, UpdateReport demo_u1, UpdateReport demo_u2, Advance 1000]
                 (demo_writer, demo_world))) ''out/report.json''
   = Some (Json_report (demo_report\<lparr>recommendations := recommendations demo_report @ [InstallOllama]\<rparr>))"
  by (simp add: pw_simps demo_u2_def)

lemma demo_not_created:
  "files (snd (pw_run [UpdateReport demo_u1, Advance 5000] (demo_writer, demo_world))) ''out/report.json''
   = None"
  by (simp add: pw_simps)

theorem updateReport_never_creates_witness:
  "timers demo_world = []
   \<and> \<not> list_ex is_WriteInitial [UpdateReport demo_u1, Advance 5000]
   \<and> files (snd (pw_run [UpdateReport demo_u1, Advance 5000] (demo_writer, demo_world))) ''out/report.json''
     = None
   \<and> map (\<lambda>tm. snd (snd tm))
        (timers (snd (updateReport demo_u2
           (pw_run [WriteInitial demo_report, UpdateReport demo_u1] (demo_writer, demo_world)))))
     = [demo_u2]
   \<and> files (snd (pw_run [WriteInitial demo_report, UpdateReport demo_u1, UpdateReport demo_u2, Advance 1000]
                 (demo_writer, demo_world))) ''out/report.json''
     = Some (Json_report (demo_report\<lparr>recommendations := recommendations demo_report @ [InstallOllama]\<rparr>))"
  using updateReport_never_creates
          [where ?w0.0 = demo_world and evs = "[UpdateReport demo_u1, Advance 5000]"
             and opts = "\<lparr>opt_outputPath = ''out/report.json'', opt_updateInterval = None\<rparr>"
             and u = demo_u1]
    updateReport_never_creates
          [where ?w0.0 = demo_world and evs = "[WriteInitial demo_report, UpdateReport demo_u1]"
             and opts = "\<lparr>opt_outputPath = ''out/report.json'', opt_updateInterval = None\<rparr>"
             and u = demo_u2]
    demo_debounced
  by (simp add: demo_writer_def [symmetric]) (simp add: demo_world_def)

section \<open>Every emitted clone is verified token by token\<close>

lemma keys_from_Suc: "keys_from sig i (Suc n) = keys_from sig i n @ keys_from sig (i + n) 1"
proof -
  have "take (n + 1) (drop i sig) = take n (drop i sig) @ take 1 (drop n (drop i sig))"
    by (rule take_add)
  then show ?thesis by (simp add: keys_from_def add.commute)
qed

lemma nframes_bound: "q < nframes m sig \<Longrightarrow> q + m \<le> length sig"
  by (simp add: nframes_def)

lemma length_keys_from: "i + n \<le> length sig \<Longrightarrow> length (keys_from sig i n) = n"
  by (simp add: keys_from_def)

lemma takeWhile_upt_nth:
  "j < length (takeWhile P [a ..< b]) \<Longrightarrow> P (a + j)"
proof -
  assume j: "j < length (takeWhile P [a ..< b])"
  have le: "length (takeWhile P [a ..< b]) \<le> length [a ..< b]"
    by (rule length_takeWhile_le)
  from j have "takeWhile P [a ..< b] ! j \<in> set (takeWhile P [a ..< b])" by simp
  then have "P (takeWhile P [a ..< b] ! j)" by (rule set_takeWhileD [THEN conjunct2])
  moreover from j have "takeWhile P [a ..< b] ! j = [a ..< b] ! j" by (rule takeWhile_nth)
  moreover from j le have "[a ..< b] ! j = a + j" by simp
  ultimately show ?thesis by simp
qed

lemma extension_count_extends:
  assumes "1 \<le> j" and "j \<le> extension_count hash m cp sa p sb q"
  shows "extends hash m cp sa p sb q j"
proof -
  from assms have "j - 1 < length (takeWhile (extends hash m cp sa p sb q)
      [1 ..< nframes m (tokens_of cp sb) - q])"
    by (simp add: extension_count_def)
  from takeWhile_upt_nth [OF this] assms(1) show ?thesis by simp
qed

lemma verified_keys_aux:
  assumes adm: "admits m cp sa p sb q"
  shows "(\<forall>j. 1 \<le> j \<and> j \<le> k \<longrightarrow> extends hash m cp sa p sb q j) \<Longrightarrow>
     keys_from (tokens_of cp sa) p (k + m) = keys_from (tokens_of cp sb) q (k + m)
     \<and> length (keys_from (tokens_of cp sb) q (k + m)) = k + m"
proof (induction k)
  case 0
  from adm have "q + m \<le> length (tokens_of cp sb)"
    by (simp add: admits_def nframes_bound)
  with adm show ?case by (simp add: admits_def length_keys_from)
next
  case (Suc k)
  then have ih: "keys_from (tokens_of cp sa) p (k + m) = keys_from (tokens_of cp sb) q (k + m)"
    by simp
  from Suc.prems have e: "extends hash m cp sa p sb q (Suc k)" by simp
  then have tail: "keys_from (tokens_of cp sa) (p + (k + m)) 1
                 = keys_from (tokens_of cp sb) (q + (k + m)) 1"
    by (simp add: extends_def add.assoc)
  from e have "q + Suc k < nframes m (tokens_of cp sb)"
    by (simp add: extends_def)
  from nframes_bound [OF this] have len: "length (keys_from (tokens_of cp sb) q (Suc k + m)) = Suc k + m"
    by (simp add: length_keys_from)
  have "keys_from (tokens_of cp sa) p (Suc (k + m)) = keys_from (tokens_of cp sb) q (Suc (k + m))"
    unfolding keys_from_Suc using ih tail by simp
  with len show ?case by simp
qed

lemma verified_keys:
  assumes "verified hash m cp c"
  shows "side_a_keys m cp c = side_b_keys m cp c \<and> length (side_b_keys m cp c) = extensions c + m"
proof -
  from assms have adm: "admits m cp (a_sourceId c) (a_first c) (b_sourceId c) (b_first c)"
    and ext: "\<forall>j. 1 \<le> j \<and> j \<le> extensions c \<longrightarrow>
                extends hash m cp (a_sourceId c) (a_first c) (b_sourceId c) (b_first c) j"
    by (auto simp: verified_def list_all_iff)
  from verified_keys_aux [OF adm ext] show ?thesis
    by (simp add: side_a_keys_def side_b_keys_def)
qed

lemma match_frame_verified:
  assumes "list_all (verified hash m cp) (emitted st)"
  shows "list_all (verified hash m cp) (emitted (match_frame hash m cp sb st F))"
proof -
  have new: "verified hash m cp
      \<lparr>a_sourceId = sa, a_first = p, b_sourceId = sb, b_first = q,
       extensions = extension_count hash m cp sa p sb q\<rparr>"
    if "admits m cp sa p sb q" for sa p q
    using that extension_count_extends [of _ hash m cp sa p sb q]
    by (auto simp: verified_def list_all_iff)
  show ?thesis
    using assms new
    by (auto simp: match_frame_def Let_def split: option.splits)
qed

lemma foldl_match_frame_verified:
  "list_all (verified hash m cp) (emitted st) \<Longrightarrow>
     list_all (verified hash m cp) (emitted (foldl (match_frame hash m cp sb) st frames))"
  by (induction frames arbitrary: st) (simp_all add: match_frame_verified)

lemma detect_verified:
  "detect hash m cp sb frames store0 = (store1, found) \<Longrightarrow> list_all (verified hash m cp) found"
  using foldl_match_frame_verified
    [of hash m cp "\<lparr>skip = 0, scan_store = store0, emitted = []\<rparr>" sb frames]
  by (auto simp: detect_def Let_def)

lemma admits_in_corpus:
  assumes "1 \<le> m" and "admits m cp sa p sb q"
  shows "sa \<in> dom cp \<and> sb \<in> dom cp"
proof -
  have "tokens_of cp s \<noteq> []" if "i < nframes m (tokens_of cp s)" for s i
    using that assms(1) by (auto simp: nframes_def)
  then have "tokens_of cp sa \<noteq> []" "tokens_of cp sb \<noteq> []"
    using assms(2) by (auto simp: admits_def)
  then show ?thesis by (auto simp: tokens_of_def split: option.splits)
qed

lemma tokens_of_mono: "cp \<subseteq>\<^sub>m cp' \<Longrightarrow> s \<in> dom cp \<Longrightarrow> tokens_of cp' s = tokens_of cp s"
  by (auto simp: tokens_of_def map_le_def dom_def split: option.splits)

lemma verified_mono:
  assumes "1 \<le> m" and "verified hash m cp c" and "cp \<subseteq>\<^sub>m cp'"
  shows "verified hash m cp' c"
proof -
  from assms(2) have "admits m cp (a_sourceId c) (a_first c) (b_sourceId c) (b_first c)"
    by (simp add: verified_def)
  from admits_in_corpus [OF assms(1) this]
  have t: "tokens_of cp' (a_sourceId c) = tokens_of cp (a_sourceId c)"
    "tokens_of cp' (b_sourceId c) = tokens_of cp (b_sourceId c)"
    using assms(3) by (simp_all add: tokens_of_mono)
  have e: "extends hash m cp' (a_sourceId c) (a_first c) (b_sourceId c) (b_first c)
         = extends hash m cp (a_sourceId c) (a_first c) (b_sourceId c) (b_first c)"
    by (rule ext) (simp add: extends_def t)
  have a: "admits m cp' (a_sourceId c) (a_first c) (b_sourceId c) (b_first c)
         = admits m cp (a_sourceId c) (a_first c) (b_sourceId c) (b_first c)"
    by (simp add: admits_def t)
  from assms(2) show ?thesis
    unfolding verified_def e a .
qed

lemma detect_file_verified:
  assumes m: "1 \<le> m"
    and inv: "list_all (verified hash m (run_corpus rs)) (run_clones rs)"
    and new: "file_sourceId f \<notin> dom (run_corpus rs)"
  shows "list_all (verified hash m (run_corpus (detect_file hash m rs f)))
           (run_clones (detect_file hash m rs f))
       \<and> dom (run_corpus (detect_file hash m rs f)) = insert (file_sourceId f) (dom (run_corpus rs))"
proof -
  let ?cp = "(run_corpus rs)(file_sourceId f \<mapsto> f)"
  obtain st found where d:
    "detect hash m ?cp (file_sourceId f) (buildFrames hash m (file_sourceId f) (file_tokens f))
       (run_store rs) = (st, found)"
    by (cases "detect hash m ?cp (file_sourceId f)
                 (buildFrames hash m (file_sourceId f) (file_tokens f)) (run_store rs)")
  have le: "run_corpus rs \<subseteq>\<^sub>m ?cp"
    using new by (auto simp: map_le_def)
  have old: "list_all (verified hash m ?cp) (run_clones rs)"
    using inv verified_mono [OF m _ le] by (auto simp: list_all_iff)
  from detect_verified [OF d] old d show ?thesis
    by (simp add: detect_file_def Let_def)
qed

lemma run_verified:
  assumes m: "1 \<le> m"
  shows "list_all (verified hash m (run_corpus rs)) (run_clones rs) \<Longrightarrow>
     distinct (map file_sourceId fs) \<Longrightarrow>
     dom (run_corpus rs) \<inter> set (map file_sourceId fs) = {} \<Longrightarrow>
     list_all (verified hash m (run_corpus (foldl (detect_file hash m) rs fs)))
       (run_clones (foldl (detect_file hash m) rs fs))"
proof (induction fs arbitrary: rs)
  case Nil
  then show ?case by simp
next
  case (Cons f fs)
  from Cons.prems have new: "file_sourceId f \<notin> dom (run_corpus rs)" by auto
  note step = detect_file_verified [OF m Cons.prems(1) new]
  have "dom (run_corpus (detect_file hash m rs f)) \<inter> set (map file_sourceId fs) = {}"
    using step Cons.prems by auto
  with Cons.IH [of "detect_file hash m rs f"] step Cons.prems show ?case by simp
qed

text \<open>
  Claim C3. Whatever the hash is, for every raw clone the matcher emits over a file set
  with pairwise different source ids and a window of at least one token, the mask keys
  side A covers are, token by token, the mask keys side B covers, and there are as many
  of them as the clone has tokens. A hash under which different windows collide admits
  nothing by itself: the theorem holds for every hash function.
\<close>

theorem emitted_clones_verified:
  fixes hash m fs
  assumes "1 \<le> m" and "distinct (map file_sourceId fs)"
  defines "rs \<equiv> run_files hash m fs"
  shows "\<forall>c \<in> set (run_clones rs).
           side_a_keys m (run_corpus rs) c = side_b_keys m (run_corpus rs) c
         \<and> length (side_b_keys m (run_corpus rs) c) = extensions c + m"
proof -
  have "list_all (verified hash m (run_corpus rs)) (run_clones rs)"
    unfolding rs_def run_files_def
    using run_verified [OF assms(1), of hash fresh_run fs] assms(2)
    by (simp add: fresh_run_def)
  then show ?thesis
    using verified_keys by (auto simp: list_all_iff)
qed


lemmas matcher_simps =
  run_files_def fresh_run_def detect_file_def detect_def buildFrames_def significant_def
  nframes_def frame_at_def keys_from_def match_frame_def admits_def extends_def
  extension_count_def tokens_of_def demo_file_def demo_tokens_def Let_def
  demo_a_js_def demo_b_js_def side_a_keys_def side_b_keys_def

lemma demo_collision_run:
  "run_clones (run_files length 3 [demo_a_js, demo_b_js]) = []"
  by (simp add: matcher_simps upt_rec)

lemma demo_prefix_run:
  "run_clones (run_files demo_hash 3 [demo_a_js, demo_b_js])
   = [\<lparr>a_sourceId = ''a.js'', a_first = 0, b_sourceId = ''b.js'', b_first = 0, extensions = 0\<rparr>]"
  by (simp add: matcher_simps upt_rec demo_hash_def)

lemma run_corpus_detect_file:
  "run_corpus (detect_file hash m rs f) = (run_corpus rs)(file_sourceId f \<mapsto> f)"
  by (simp add: detect_file_def Let_def split: prod.splits)

lemma run_corpus_foldl:
  "run_corpus (foldl (detect_file hash m) rs fs)
     = foldl (\<lambda>cp f. cp(file_sourceId f \<mapsto> f)) (run_corpus rs) fs"
  by (induction fs arbitrary: rs) (simp_all add: run_corpus_detect_file)

lemma demo_prefix_keys:
  "side_a_keys 3 (run_corpus (run_files demo_hash 3 [demo_a_js, demo_b_js]))
     \<lparr>a_sourceId = ''a.js'', a_first = 0, b_sourceId = ''b.js'', b_first = 0, extensions = 0\<rparr>
   = [''X'', ''Y'', ''Z'']"
  by (simp add: run_files_def run_corpus_detect_file fresh_run_def side_a_keys_def tokens_of_def
        demo_a_js_def demo_b_js_def demo_file_def demo_tokens_def significant_def keys_from_def)

theorem emitted_clones_verified_witness:
  "(1::nat) \<le> 3
   \<and> distinct (map file_sourceId [demo_a_js, demo_b_js])
   \<and> run_clones (run_files demo_hash 3 [demo_a_js, demo_b_js])
     = [\<lparr>a_sourceId = ''a.js'', a_first = 0, b_sourceId = ''b.js'', b_first = 0, extensions = 0\<rparr>]
   \<and> side_b_keys 3 (run_corpus (run_files demo_hash 3 [demo_a_js, demo_b_js]))
        \<lparr>a_sourceId = ''a.js'', a_first = 0, b_sourceId = ''b.js'', b_first = 0, extensions = 0\<rparr>
     = [''X'', ''Y'', ''Z'']
   \<and> run_clones (run_files length 3 [demo_a_js, demo_b_js]) = []"
proof -
  have d: "distinct (map file_sourceId [demo_a_js, demo_b_js])"
    by (simp add: demo_a_js_def demo_b_js_def demo_file_def)
  have "\<forall>c \<in> set (run_clones (run_files demo_hash 3 [demo_a_js, demo_b_js])).
           side_a_keys 3 (run_corpus (run_files demo_hash 3 [demo_a_js, demo_b_js])) c
           = side_b_keys 3 (run_corpus (run_files demo_hash 3 [demo_a_js, demo_b_js])) c
         \<and> length (side_b_keys 3 (run_corpus (run_files demo_hash 3 [demo_a_js, demo_b_js])) c)
           = extensions c + 3"
    by (rule emitted_clones_verified [of 3 "[demo_a_js, demo_b_js]" demo_hash]) (simp, rule d)
  then have "side_a_keys 3 (run_corpus (run_files demo_hash 3 [demo_a_js, demo_b_js]))
          \<lparr>a_sourceId = ''a.js'', a_first = 0, b_sourceId = ''b.js'', b_first = 0, extensions = 0\<rparr>
        = side_b_keys 3 (run_corpus (run_files demo_hash 3 [demo_a_js, demo_b_js]))
          \<lparr>a_sourceId = ''a.js'', a_first = 0, b_sourceId = ''b.js'', b_first = 0, extensions = 0\<rparr>"
    unfolding demo_prefix_run by simp
  with demo_prefix_keys
  have b: "side_b_keys 3 (run_corpus (run_files demo_hash 3 [demo_a_js, demo_b_js]))
        \<lparr>a_sourceId = ''a.js'', a_first = 0, b_sourceId = ''b.js'', b_first = 0, extensions = 0\<rparr>
     = [''X'', ''Y'', ''Z'']"
    by simp
  show ?thesis
    by (intro conjI) (simp, rule d, rule demo_prefix_run, rule b, rule demo_collision_run)
qed

section \<open>The sides of a clone inside one file\<close>

lemma verified_in_file:
  assumes "verified hash m cp c"
  shows "a_first c + extensions c + m \<le> length (tokens_of cp (a_sourceId c))
       \<and> b_first c + extensions c + m \<le> length (tokens_of cp (b_sourceId c))"
proof (cases "extensions c")
  case 0
  with assms show ?thesis by (simp add: verified_def admits_def nframes_bound)
next
  case (Suc k)
  with assms have "extends hash m cp (a_sourceId c) (a_first c) (b_sourceId c) (b_first c) (Suc k)"
    by (simp add: verified_def list_all_iff)
  then have "a_first c + Suc k < nframes m (tokens_of cp (a_sourceId c))"
    "b_first c + Suc k < nframes m (tokens_of cp (b_sourceId c))"
    by (simp_all add: extends_def)
  from nframes_bound [OF this(1)] nframes_bound [OF this(2)] Suc show ?thesis by simp
qed




















section \<open>Maximal pairs across two files\<close>

text \<open>
  The pass over the second file is followed frame by frame. Where no frame id occurs
  twice inside a file, the store still holds, for every frame of Y that the scan looks
  up, the one frame of X with that id, and a jump never passes the start of a maximal
  pair.
\<close>

lemma keys_from_nth:
  "j < n \<Longrightarrow> i + j < length s \<Longrightarrow> keys_from s i n ! j = maskKey (s ! (i + j))"
  by (simp add: keys_from_def)

lemma keys_from_sub:
  "j + n' \<le> n \<Longrightarrow> keys_from s (i + j) n' = take n' (drop j (keys_from s i n))"
  by (simp add: keys_from_def take_map drop_map drop_take min_def add.commute)

lemma keys_from_single:
  "i < length s \<Longrightarrow> keys_from s i 1 = [maskKey (s ! i)]"
  by (simp add: keys_from_def take_Suc_conv_app_nth)

lemma frame_at_simps [simp]:
  "frame_id (frame_at hash m sid sig i) = hash (concat (keys_from sig i m))"
  "frame_index (frame_at hash m sid sig i) = i"
  "frame_sourceId (frame_at hash m sid sig i) = sid"
  by (simp_all add: frame_at_def)

lemma nframes_iff: "1 \<le> m \<Longrightarrow> (i < nframes m s) = (i + m \<le> length s)"
  by (auto simp: nframes_def)

lemma foldl_fresh_frames:
  "distinct (map frame_id fr) \<Longrightarrow> skip st = 0 \<Longrightarrow>
     \<forall>F \<in> set fr. scan_store st (frame_id F) = None \<Longrightarrow>
     skip (foldl (match_frame hash m cp sb) st fr) = 0
     \<and> emitted (foldl (match_frame hash m cp sb) st fr) = emitted st
     \<and> (\<forall>i. scan_store (foldl (match_frame hash m cp sb) st fr) i
            = (case map_of (map (\<lambda>F. (frame_id F, F)) fr) i of
                 Some F \<Rightarrow> Some F | None \<Rightarrow> scan_store st i))"
proof (induction fr arbitrary: st)
  case Nil
  then show ?case by simp
next
  case (Cons F fr)
  let ?st = "st\<lparr>scan_store := (scan_store st)(frame_id F \<mapsto> F)\<rparr>"
  from Cons.prems have step: "match_frame hash m cp sb st F = ?st"
    by (simp add: match_frame_def)
  from Cons.prems have notin: "map_of (map (\<lambda>F. (frame_id F, F)) fr) (frame_id F) = None"
    by (auto simp: map_of_eq_None_iff image_iff)
  have "\<forall>F' \<in> set fr. scan_store ?st (frame_id F') = None"
  proof
    fix F' assume f: "F' \<in> set fr"
    with Cons.prems have "frame_id F' \<noteq> frame_id F"
      by (metis distinct.simps(2) imageI list.simps(9) set_map)
    with Cons.prems f show "scan_store ?st (frame_id F') = None" by simp
  qed
  with Cons.prems have r:
    "skip (foldl (match_frame hash m cp sb) ?st fr) = 0
     \<and> emitted (foldl (match_frame hash m cp sb) ?st fr) = emitted ?st
     \<and> (\<forall>i. scan_store (foldl (match_frame hash m cp sb) ?st fr) i
            = (case map_of (map (\<lambda>F. (frame_id F, F)) fr) i of
                 Some F \<Rightarrow> Some F | None \<Rightarrow> scan_store ?st i))"
    by (intro Cons.IH) simp_all
  have "scan_store (foldl (match_frame hash m cp sb) ?st fr) i
            = (case map_of (map (\<lambda>F. (frame_id F, F)) (F # fr)) i of
                 Some F \<Rightarrow> Some F | None \<Rightarrow> scan_store st i)" for i
    using r notin by (cases "i = frame_id F") (simp_all split: option.splits)
  with r step show ?case by simp
qed

lemma maximal_pair_window:
  assumes "1 \<le> m" and "maximal_pair m xs ys p q n"
  shows "keys_from xs p m = keys_from ys q m \<and> p < nframes m xs \<and> q < nframes m ys"
proof -
  from assms(2) have mn: "m \<le> n" and e: "keys_from xs p n = keys_from ys q n"
    and b: "p + n \<le> length xs" "q + n \<le> length ys"
    by (simp_all add: maximal_pair_def)
  from mn have "keys_from xs (p + 0) m = take m (drop 0 (keys_from xs p n))"
    "keys_from ys (q + 0) m = take m (drop 0 (keys_from ys q n))"
    by (simp_all only: keys_from_sub add_0)
  with e have "keys_from xs p m = keys_from ys q m" by simp
  with assms(1) mn b show ?thesis by (simp add: nframes_iff)
qed

lemma stored_frame:
  assumes "map_of (map (\<lambda>F. (frame_id F, F)) (buildFrames hash m sid ts)) i = Some F"
  shows "\<exists>p < nframes m (significant ts). F = frame_at hash m sid (significant ts) p \<and> frame_id F = i"
proof -
  from map_of_SomeD [OF assms] have "F \<in> set (buildFrames hash m sid ts)" "frame_id F = i"
    by auto
  then show ?thesis by (auto simp: buildFrames_def Let_def)
qed

lemma frame_stored:
  assumes "distinct (map frame_id (buildFrames hash m sid ts))" and "p < nframes m (significant ts)"
  shows "map_of (map (\<lambda>F. (frame_id F, F)) (buildFrames hash m sid ts))
           (hash (concat (keys_from (significant ts) p m)))
         = Some (frame_at hash m sid (significant ts) p)"
proof -
  let ?F = "frame_at hash m sid (significant ts) p"
  have d: "distinct (map fst (map (\<lambda>F. (frame_id F, F)) (buildFrames hash m sid ts)))"
    using assms(1) by (simp add: comp_def)
  have "(frame_id ?F, ?F) \<in> set (map (\<lambda>F. (frame_id F, F)) (buildFrames hash m sid ts))"
    using assms(2) by (auto simp: buildFrames_def Let_def)
  from map_of_is_SomeI [OF d this] show ?thesis by simp
qed

lemma distinct_frame_ids:
  assumes "distinct (map frame_id (buildFrames hash m sid ts))"
    and "p < nframes m (significant ts)" and "p' < nframes m (significant ts)"
    and "hash (concat (keys_from (significant ts) p m))
         = hash (concat (keys_from (significant ts) p' m))"
  shows "p = p'"
proof -
  have "distinct (map (\<lambda>i. hash (concat (keys_from (significant ts) i m)))
            [0 ..< nframes m (significant ts)])"
    using assms(1) by (simp add: buildFrames_def Let_def comp_def)
  then have "inj_on (\<lambda>i. hash (concat (keys_from (significant ts) i m)))
                {0 ..< nframes m (significant ts)}"
    by (simp add: distinct_map)
  with assms(2,3,4) show ?thesis by (auto simp: inj_on_def)
qed

lemma takeWhile_upt_length:
  assumes "\<forall>j. a \<le> j \<and> j < a + k \<longrightarrow> P j" and "\<not> P (a + k)"
  shows "length (takeWhile P [a ..< b]) = min k (b - a)"
proof (cases "a + k \<le> b")
  case True
  then have split: "[a ..< b] = [a ..< a + k] @ [a + k ..< b]"
    using upt_add_eq_append [of a "a + k" "b - (a + k)"] by simp
  have all: "\<And>x. x \<in> set [a ..< a + k] \<Longrightarrow> P x" using assms(1) by simp
  have "takeWhile P [a + k ..< b] = []"
    using assms(2) by (cases "a + k < b") (simp_all add: upt_conv_Cons)
  moreover have "takeWhile P ([a ..< a + k] @ [a + k ..< b]) = [a ..< a + k] @ takeWhile P [a + k ..< b]"
    by (rule takeWhile_append2) (rule all)
  ultimately have "takeWhile P [a ..< b] = [a ..< a + k]"
    using split by simp
  with True show ?thesis by simp
next
  case False
  then have "\<forall>x \<in> set [a ..< b]. P x" using assms(1) by simp
  then have "takeWhile P [a ..< b] = [a ..< b]" by (simp only: takeWhile_eq_all_conv)
  then have "length (takeWhile P [a ..< b]) = length [a ..< b]" by (rule arg_cong)
  with False show ?thesis by simp
qed

lemma tokens_of_Some: "cp sid = Some f \<Longrightarrow> tokens_of cp sid = significant (file_tokens f)"
  by (simp add: tokens_of_def)

lemma maximal_pair_extends:
  assumes m: "1 \<le> m" and xy: "sa \<noteq> sb"
    and mp: "maximal_pair m (tokens_of cp sa) (tokens_of cp sb) p q n"
  shows "(\<forall>j. 1 \<le> j \<and> j < 1 + (n - m) \<longrightarrow> extends hash m cp sa p sb q j)
       \<and> \<not> extends hash m cp sa p sb q (1 + (n - m))"
proof -
  let ?xs = "tokens_of cp sa" and ?ys = "tokens_of cp sb"
  from mp have mn: "m \<le> n" and e: "keys_from ?xs p n = keys_from ?ys q n"
    and b: "p + n \<le> length ?xs" "q + n \<le> length ?ys"
    and right: "p + n = length ?xs \<or> q + n = length ?ys
          \<or> maskKey (?xs ! (p + n)) \<noteq> maskKey (?ys ! (q + n))"
    by (simp_all add: maximal_pair_def)
  have ext: "extends hash m cp sa p sb q j" if j: "1 \<le> j" "j < 1 + (n - m)" for j
  proof -
    from j mn have jm: "j + m \<le> n" by simp
    from jm b m have r: "p + j < nframes m ?xs" "q + j < nframes m ?ys"
      by (simp_all add: nframes_iff)
    have w: "keys_from ?xs (p + j) m = keys_from ?ys (q + j) m"
      using keys_from_sub [OF jm, of ?xs p] keys_from_sub [OF jm, of ?ys q] e by simp
    from j m jm have t: "(j + m - 1) + 1 \<le> n" by simp
    have "keys_from ?xs (p + (j + m - 1)) 1 = keys_from ?ys (q + (j + m - 1)) 1"
      using keys_from_sub [OF t, of ?xs p] keys_from_sub [OF t, of ?ys q] e by simp
    moreover from j have "p + (j + m - 1) = p + j + m - 1" "q + (j + m - 1) = q + j + m - 1"
      by simp_all
    ultimately have tl: "keys_from ?xs (p + j + m - 1) 1 = keys_from ?ys (q + j + m - 1) 1"
      by simp
    from r w tl xy show ?thesis by (simp add: extends_def)
  qed
  have stop: "\<not> extends hash m cp sa p sb q (1 + (n - m))"
  proof
    assume a: "extends hash m cp sa p sb q (1 + (n - m))"
    from mn have i: "p + (1 + (n - m)) + m - 1 = p + n" "q + (1 + (n - m)) + m - 1 = q + n"
      by simp_all
    from a m mn have lt: "p + n < length ?xs" "q + n < length ?ys"
      by (simp_all add: extends_def nframes_iff)
    from a have "keys_from ?xs (p + n) 1 = keys_from ?ys (q + n) 1"
      unfolding extends_def i by simp
    with keys_from_single [OF lt(1)] keys_from_single [OF lt(2)]
    have "maskKey (?xs ! (p + n)) = maskKey (?ys ! (q + n))"
      by simp
    with right lt show False by simp
  qed
  from ext stop show ?thesis by blast
qed

lemma maximal_pair_extension_count:
  assumes m: "1 \<le> m" and xy: "sa \<noteq> sb"
    and mp: "maximal_pair m (tokens_of cp sa) (tokens_of cp sb) p q n"
  shows "extension_count hash m cp sa p sb q = n - m \<and> admits m cp sa p sb q"
proof -
  from mp have mn: "m \<le> n" and b: "q + n \<le> length (tokens_of cp sb)"
    by (simp_all add: maximal_pair_def)
  note e = maximal_pair_extends [OF m xy mp, of hash]
  have "length (takeWhile (extends hash m cp sa p sb q) [1 ..< nframes m (tokens_of cp sb) - q])
          = min (n - m) (nframes m (tokens_of cp sb) - q - 1)"
    by (rule takeWhile_upt_length) (use e in simp_all)
  moreover from mn b have "n - m \<le> nframes m (tokens_of cp sb) - q - 1"
    by (simp add: nframes_def)
  ultimately have "extension_count hash m cp sa p sb q = n - m"
    by (simp add: extension_count_def)
  moreover from maximal_pair_window [OF m mp] xy have "admits m cp sa p sb q"
    by (simp add: admits_def)
  ultimately show ?thesis by simp
qed

lemma skipped_not_maximal:
  assumes m: "1 \<le> m"
    and v: "verified hash m cp c"
    and X: "cp (a_sourceId c) = Some X"
    and dx: "distinct (frame_ids hash m X)"
    and cover: "b_first c < i" "i \<le> b_first c + extensions c"
    and mp: "maximal_pair m (tokens_of cp (a_sourceId c)) (tokens_of cp (b_sourceId c)) p i n"
  shows False
proof -
  let ?xs = "tokens_of cp (a_sourceId c)" and ?ys = "tokens_of cp (b_sourceId c)"
  let ?p' = "a_first c" and ?q' = "b_first c" and ?k = "extensions c"
  define d where "d = i - ?q'"
  from cover have d: "1 \<le> d" "d \<le> ?k" "?q' + d = i" by (simp_all add: d_def)
  from verified_keys [OF v] have e: "keys_from ?xs ?p' (?k + m) = keys_from ?ys ?q' (?k + m)"
    by (simp add: side_a_keys_def side_b_keys_def)
  from verified_in_file [OF v] have len: "?p' + ?k + m \<le> length ?xs" "?q' + ?k + m \<le> length ?ys"
    by simp_all
  from d have dm: "d + m \<le> ?k + m" by simp
  have "keys_from ?xs (?p' + d) m = keys_from ?ys (?q' + d) m"
    using keys_from_sub [OF dm, of ?xs ?p'] keys_from_sub [OF dm, of ?ys ?q'] e by simp
  with d have w1: "keys_from ?xs (?p' + d) m = keys_from ?ys i m" by simp
  from maximal_pair_window [OF m mp] have w2: "keys_from ?xs p m = keys_from ?ys i m"
    and pr: "p < nframes m ?xs" by simp_all
  from len d m have pr': "?p' + d < nframes m ?xs" by (simp add: nframes_iff)
  have xs: "?xs = significant (file_tokens X)" using X by (simp add: tokens_of_def)
  from dx have dd: "distinct (map frame_id (buildFrames hash m (file_sourceId X) (file_tokens X)))"
    by (simp add: frame_ids_def)
  have pp: "?p' + d = p"
    using distinct_frame_ids [OF dd, of "?p' + d" p] pr pr' w1 w2 by (simp add: xs)
  from mp have left: "p = 0 \<or> i = 0 \<or> maskKey (?xs ! (p - 1)) \<noteq> maskKey (?ys ! (i - 1))"
    by (simp add: maximal_pair_def)
  from d pp have p1: "p - 1 = ?p' + (d - 1)" "1 \<le> p" by simp_all
  from d have i1: "i - 1 = ?q' + (d - 1)" "1 \<le> i" by simp_all
  from d have dk: "d - 1 < ?k + m" by simp
  from len d have "?p' + (d - 1) < length ?xs" "?q' + (d - 1) < length ?ys" by simp_all
  from keys_from_nth [OF dk this(1)] keys_from_nth [OF dk this(2)] e
  have "maskKey (?xs ! (?p' + (d - 1))) = maskKey (?ys ! (?q' + (d - 1)))" by simp
  with left p1 i1 show False by simp
qed

lemma verified_new:
  assumes "admits m cp sa p sb q"
  shows "verified hash m cp
      \<lparr>a_sourceId = sa, a_first = p, b_sourceId = sb, b_first = q,
       extensions = extension_count hash m cp sa p sb q\<rparr>"
  using assms extension_count_extends [of _ hash m cp sa p sb q]
  by (auto simp: verified_def list_all_iff)

lemma second_pass_step:
  assumes m: "1 \<le> m" and xy: "file_sourceId X \<noteq> file_sourceId Y"
    and cpx: "cp (file_sourceId X) = Some X" and cpy: "cp (file_sourceId Y) = Some Y"
    and dx: "distinct (frame_ids hash m X)" and dy: "distinct (frame_ids hash m Y)"
    and inv: "second_pass hash m cp X Y i st"
    and i: "i < nframes m (significant (file_tokens Y))"
  shows "second_pass hash m cp X Y (Suc i)
           (match_frame hash m cp (file_sourceId Y) st
              (frame_at hash m (file_sourceId Y) (significant (file_tokens Y)) i))"
proof -
  let ?x = "file_sourceId X" and ?y = "file_sourceId Y"
  let ?sx = "significant (file_tokens X)" and ?sy = "significant (file_tokens Y)"
  let ?F = "frame_at hash m ?y ?sy i"
  let ?idy = "\<lambda>j. hash (concat (keys_from ?sy j m))"
  let ?SX = "map_of (map (\<lambda>F. (frame_id F, F)) (buildFrames hash m ?x (file_tokens X)))"
  let ?mp = "maximal_pair m ?sx ?sy"
  from inv have A: "\<forall>j. i \<le> j \<and> j < nframes m ?sy \<longrightarrow> scan_store st (?idy j) = ?SX (?idy j)"
    and B: "skip st > 0 \<longrightarrow>
           (\<exists>c \<in> set (emitted st). verified hash m cp c \<and> a_sourceId c = ?x
              \<and> b_sourceId c = ?y \<and> b_first c < i
              \<and> b_first c + extensions c = i + skip st - 1)"
    and C: "\<forall>c \<in> set (emitted st). b_first c < i"
    and D: "distinct (map b_first (emitted st))"
    and E: "\<forall>p q n. ?mp p q n \<and> q < i \<longrightarrow> pair_clone m X p Y q n \<in> set (emitted st)"
    unfolding second_pass_def by blast+
  have tx: "tokens_of cp ?x = ?sx" and ty: "tokens_of cp ?y = ?sy"
    using cpx cpy by (simp_all add: tokens_of_def)
  from dx have ddx: "distinct (map frame_id (buildFrames hash m ?x (file_tokens X)))"
    by (simp add: frame_ids_def)
  from dy have ddy: "distinct (map frame_id (buildFrames hash m ?y (file_tokens Y)))"
    by (simp add: frame_ids_def)
  have other: "?idy j \<noteq> ?idy i" if "Suc i \<le> j" "j < nframes m ?sy" for j
    using distinct_frame_ids [OF ddy that(2) i] that(1) by auto
  have at_i: "?SX (?idy i) = Some (frame_at hash m ?x ?sx p)
              \<and> extension_count hash m cp ?x p ?y i = n - m \<and> admits m cp ?x p ?y i
              \<and> p < nframes m ?sx"
    if mp: "?mp p i n" for p n
  proof -
    from maximal_pair_window [OF m mp] have w: "keys_from ?sx p m = keys_from ?sy i m"
      and pr: "p < nframes m ?sx" by simp_all
    from frame_stored [OF ddx pr] w have "?SX (?idy i) = Some (frame_at hash m ?x ?sx p)"
      by simp
    moreover from mp have "maximal_pair m (tokens_of cp ?x) (tokens_of cp ?y) p i n"
      by (simp add: tx ty)
    from maximal_pair_extension_count [OF m xy this, of hash]
    have "extension_count hash m cp ?x p ?y i = n - m \<and> admits m cp ?x p ?y i" .
    ultimately show ?thesis using pr by simp
  qed
  show ?thesis
  proof (cases "skip st > 0")
    case True
    then have step: "match_frame hash m cp ?y st ?F = st\<lparr>skip := skip st - 1\<rparr>"
      by (simp add: match_frame_def)
    from B True obtain c where c: "c \<in> set (emitted st)" "verified hash m cp c"
      "a_sourceId c = ?x" "b_sourceId c = ?y" "b_first c < i"
      "b_first c + extensions c = i + skip st - 1" by blast
    have nomax: "\<not> ?mp p i n" for p n
    proof
      assume "?mp p i n"
      then have "maximal_pair m (tokens_of cp (a_sourceId c)) (tokens_of cp (b_sourceId c)) p i n"
        by (simp add: c tx ty)
      moreover from c True have "i \<le> b_first c + extensions c" by simp
      moreover have "cp (a_sourceId c) = Some X" using c cpx by simp
      ultimately show False
        using skipped_not_maximal [OF m c(2) _ dx c(5)] by blast
    qed
    have E': "\<forall>p q n. ?mp p q n \<and> q < Suc i \<longrightarrow> pair_clone m X p Y q n \<in> set (emitted st)"
    proof (intro allI impI)
      fix p q n assume a: "?mp p q n \<and> q < Suc i"
      with nomax have "q < i" by (cases "q = i") auto
      with a E show "pair_clone m X p Y q n \<in> set (emitted st)" by blast
    qed
    have B': "skip st - 1 > 0 \<longrightarrow>
           (\<exists>c \<in> set (emitted st). verified hash m cp c \<and> a_sourceId c = ?x
              \<and> b_sourceId c = ?y \<and> b_first c < Suc i
              \<and> b_first c + extensions c = Suc i + (skip st - 1) - 1)"
      using c by (intro impI bexI [of _ c]) simp_all
    from A C D E' B' show ?thesis
      unfolding step by (simp add: second_pass_def less_Suc_eq)
  next
    case False
    then have sk: "skip st = 0" by simp
    from A i have look: "scan_store st (?idy i) = ?SX (?idy i)" by simp
    let ?st1 = "st\<lparr>scan_store := (scan_store st)(?idy i \<mapsto> ?F)\<rparr>"
    have A1: "\<forall>j. Suc i \<le> j \<and> j < nframes m ?sy \<longrightarrow>
                ((scan_store st)(?idy i \<mapsto> ?F)) (?idy j) = ?SX (?idy j)"
      using A other by simp
    show ?thesis
    proof (cases "?SX (?idy i)")
      case None
      with look sk have step: "match_frame hash m cp ?y st ?F = ?st1"
        by (simp add: match_frame_def)
      have E': "\<forall>p q n. ?mp p q n \<and> q < Suc i \<longrightarrow> pair_clone m X p Y q n \<in> set (emitted st)"
      proof (intro allI impI)
        fix p q n assume a: "?mp p q n \<and> q < Suc i"
        have "q \<noteq> i" using a at_i [of p n] None by auto
        with a have "q < i" by simp
        with a E show "pair_clone m X p Y q n \<in> set (emitted st)" by blast
      qed
      from A1 C D E' sk show ?thesis
        unfolding step by (simp add: second_pass_def less_Suc_eq)
    next
      case (Some prior)
      from stored_frame [OF Some] obtain p0 where p0: "p0 < nframes m ?sx"
        "prior = frame_at hash m ?x ?sx p0" by blast
      then have pr: "frame_sourceId prior = ?x" "frame_index prior = p0" by simp_all
      have same: "p = p0" if "?mp p i n" for p n
        using at_i [OF that] Some p0 by (simp add: frame_at_def)
      show ?thesis
      proof (cases "admits m cp ?x p0 ?y i")
        case True
        let ?k = "extension_count hash m cp ?x p0 ?y i"
        let ?c = "\<lparr>a_sourceId = ?x, a_first = p0, b_sourceId = ?y, b_first = i, extensions = ?k\<rparr>"
        let ?st2 = "st\<lparr>skip := ?k, scan_store := (scan_store st)(?idy i \<mapsto> ?F),
                       emitted := emitted st @ [?c]\<rparr>"
        from look sk Some pr xy True have step: "match_frame hash m cp ?y st ?F = ?st2"
          by (simp add: match_frame_def Let_def)
        have v: "verified hash m cp ?c" by (rule verified_new [OF True])
        have B': "?k > 0 \<longrightarrow>
           (\<exists>c \<in> set (emitted st @ [?c]). verified hash m cp c \<and> a_sourceId c = ?x
              \<and> b_sourceId c = ?y \<and> b_first c < Suc i
              \<and> b_first c + extensions c = Suc i + ?k - 1)"
          using v by (intro impI bexI [of _ ?c]) simp_all
        have C': "\<forall>c \<in> set (emitted st @ [?c]). b_first c < Suc i"
          using C by (auto simp: less_Suc_eq)
        have D': "distinct (map b_first (emitted st @ [?c]))"
          using C D by auto
        have E': "\<forall>p q n. ?mp p q n \<and> q < Suc i \<longrightarrow>
                    pair_clone m X p Y q n \<in> set (emitted st @ [?c])"
        proof (intro allI impI)
          fix p q n assume a: "?mp p q n \<and> q < Suc i"
          show "pair_clone m X p Y q n \<in> set (emitted st @ [?c])"
          proof (cases "q = i")
            case True
            with a have mp: "?mp p i n" by simp
            from same [OF mp] at_i [OF mp] True show ?thesis
              by (simp add: pair_clone_def)
          next
            case False
            with a E show ?thesis by auto
          qed
        qed
        from A1 B' C' D' E' show ?thesis
          unfolding step by (simp add: second_pass_def)
      next
        case False
        with look sk Some pr xy have step: "match_frame hash m cp ?y st ?F = ?st1"
          by (simp add: match_frame_def)
        have E': "\<forall>p q n. ?mp p q n \<and> q < Suc i \<longrightarrow> pair_clone m X p Y q n \<in> set (emitted st)"
        proof (intro allI impI)
          fix p q n assume a: "?mp p q n \<and> q < Suc i"
          have "q \<noteq> i"
          proof
            assume "q = i"
            with a have mp: "?mp p i n" by simp
            from same [OF mp] at_i [OF mp] False show False by simp
          qed
          with a have "q < i" by simp
          with a E show "pair_clone m X p Y q n \<in> set (emitted st)" by blast
        qed
        from A1 C D E' sk show ?thesis
          unfolding step by (simp add: second_pass_def less_Suc_eq)
      qed
    qed
  qed
qed

lemma second_pass_fold:
  assumes m: "1 \<le> m" and xy: "file_sourceId X \<noteq> file_sourceId Y"
    and cpx: "cp (file_sourceId X) = Some X" and cpy: "cp (file_sourceId Y) = Some Y"
    and dx: "distinct (frame_ids hash m X)" and dy: "distinct (frame_ids hash m Y)"
  shows "i \<le> nframes m (significant (file_tokens Y)) \<Longrightarrow> second_pass hash m cp X Y i st \<Longrightarrow>
     second_pass hash m cp X Y (nframes m (significant (file_tokens Y)))
       (foldl (match_frame hash m cp (file_sourceId Y)) st
          (map (frame_at hash m (file_sourceId Y) (significant (file_tokens Y)))
             [i ..< nframes m (significant (file_tokens Y))]))"
proof (induction "nframes m (significant (file_tokens Y)) - i" arbitrary: i st)
  case 0
  then show ?case by simp
next
  case (Suc d)
  then have lt: "i < nframes m (significant (file_tokens Y))" by simp
  note step = second_pass_step [OF m xy cpx cpy dx dy Suc.prems(2) lt]
  from Suc.hyps(2) have d: "d = nframes m (significant (file_tokens Y)) - Suc i" by simp
  from lt have le: "Suc i \<le> nframes m (significant (file_tokens Y))" by simp
  from Suc.hyps(1) [OF d le step] lt show ?case by (simp add: upt_conv_Cons)
qed

lemma count_list_distinct: "distinct xs \<Longrightarrow> x \<in> set xs \<Longrightarrow> count_list xs x = 1"
  by (induction xs) auto

text \<open>
  Claim C2, as the model has it. Two files X and Y with different source ids are
  processed in this order from an empty store, the window is at least one token wide,
  and inside each file no two frames have the same id. Then for every maximal pair of
  identical regions across X and Y the raw clone of that pair, rooted at the frame of Y
  where the match starts, is emitted exactly once.
\<close>

theorem maximal_pairs_emitted_once:
  fixes hash m X Y
  assumes m: "1 \<le> m" and xy: "file_sourceId X \<noteq> file_sourceId Y"
    and dx: "distinct (frame_ids hash m X)" and dy: "distinct (frame_ids hash m Y)"
  shows "\<forall>p q n. maximal_pair m (significant (file_tokens X)) (significant (file_tokens Y)) p q n \<longrightarrow>
           count_list (run_clones (run_files hash m [X, Y])) (pair_clone m X p Y q n) = 1"
proof (intro allI impI)
  fix p q n
  assume mp: "maximal_pair m (significant (file_tokens X)) (significant (file_tokens Y)) p q n"
  let ?x = "file_sourceId X" and ?y = "file_sourceId Y"
  let ?sy = "significant (file_tokens Y)"
  let ?SX = "map_of (map (\<lambda>F. (frame_id F, F)) (buildFrames hash m ?x (file_tokens X)))"
  let ?cp1 = "[?x \<mapsto> X]"
  let ?cp2 = "?cp1(?y \<mapsto> Y)"
  let ?st1 = "foldl (match_frame hash m ?cp1 ?x) \<lparr>skip = 0, scan_store = Map.empty, emitted = []\<rparr>
                (buildFrames hash m ?x (file_tokens X))"
  from dx have ddx: "distinct (map frame_id (buildFrames hash m ?x (file_tokens X)))"
    by (simp add: frame_ids_def)
  from foldl_fresh_frames [OF ddx, of "\<lparr>skip = 0, scan_store = Map.empty, emitted = []\<rparr>" hash m ?cp1 ?x]
  have first: "skip ?st1 = 0" "emitted ?st1 = []" "\<forall>i. scan_store ?st1 i = ?SX i"
    by (simp_all split: option.splits)
  let ?st0 = "\<lparr>skip = 0, scan_store = scan_store ?st1, emitted = []\<rparr>"
  let ?final = "foldl (match_frame hash m ?cp2 ?y) ?st0
                  (map (frame_at hash m ?y ?sy) [0 ..< nframes m ?sy])"
  have run: "run_clones (run_files hash m [X, Y]) = emitted ?final"
    using first(2)
    by (simp add: run_files_def fresh_run_def detect_file_def detect_def Let_def buildFrames_def)
  have cpx: "?cp2 ?x = Some X" and cpy: "?cp2 ?y = Some Y" using xy by simp_all
  have "second_pass hash m ?cp2 X Y 0 ?st0"
    using first(3) by (simp add: second_pass_def)
  from second_pass_fold [OF m xy cpx cpy dx dy _ this]
  have fin: "second_pass hash m ?cp2 X Y (nframes m ?sy) ?final" by simp
  from maximal_pair_window [OF m mp] have "q < nframes m ?sy" by simp
  with fin mp have "pair_clone m X p Y q n \<in> set (emitted ?final)"
    unfolding second_pass_def by blast
  moreover from fin have "distinct (map b_first (emitted ?final))"
    unfolding second_pass_def by blast
  then have "distinct (emitted ?final)" by (simp add: distinct_map)
  ultimately show "count_list (run_clones (run_files hash m [X, Y])) (pair_clone m X p Y q n) = 1"
    unfolding run by (simp add: count_list_distinct)
qed

text \<open>
  The files \<^verbatim>\<open>a.js\<close> and \<^verbatim>\<open>b.js\<close> share their first three tokens; with a window of three
  tokens the pair is found once.
\<close>

theorem maximal_pairs_emitted_once_witness:
  "maximal_pair 3 (significant (file_tokens demo_a_js)) (significant (file_tokens demo_b_js)) 0 0 3
   \<and> distinct (frame_ids demo_hash 3 demo_a_js)
   \<and> distinct (frame_ids demo_hash 3 demo_b_js)
   \<and> count_list (run_clones (run_files demo_hash 3 [demo_a_js, demo_b_js]))
         (pair_clone 3 demo_a_js 0 demo_b_js 0 3) = 1"
proof -
  have mp: "maximal_pair 3 (significant (file_tokens demo_a_js))
              (significant (file_tokens demo_b_js)) 0 0 3"
    by (simp add: maximal_pair_def demo_a_js_def demo_b_js_def demo_file_def demo_tokens_def
          significant_def keys_from_def upt_rec)
  have da: "distinct (frame_ids demo_hash 3 demo_a_js)"
    by (simp add: frame_ids_def matcher_simps upt_rec demo_hash_def)
  have db: "distinct (frame_ids demo_hash 3 demo_b_js)"
    by (simp add: frame_ids_def matcher_simps upt_rec demo_hash_def)
  have ne: "file_sourceId demo_a_js \<noteq> file_sourceId demo_b_js"
    by (simp add: demo_a_js_def demo_b_js_def demo_file_def)
  have "1 \<le> (3::nat)" by simp
  from maximal_pairs_emitted_once [OF this ne da db] mp
  have "count_list (run_clones (run_files demo_hash 3 [demo_a_js, demo_b_js]))
         (pair_clone 3 demo_a_js 0 demo_b_js 0 3) = 1"
    by blast
  with mp da db show ?thesis by blast
qed

text \<open>
  Without the condition on the frame ids a maximal pair is missed. The file \<^verbatim>\<open>x.js\<close> holds
  the tokens \<^verbatim>\<open>a b\<close> twice; the store keeps the later frame only, so the frame \<^verbatim>\<open>a b\<close> of
  \<^verbatim>\<open>y.js\<close> is matched with the second occurrence and the pair with the first one is never
  emitted.
\<close>

theorem repeated_frame_misses_maximal_pair:
  "maximal_pair 2 (significant (file_tokens demo_x_js)) (significant (file_tokens demo_y_js)) 0 0 2
   \<and> file_sourceId demo_x_js \<noteq> file_sourceId demo_y_js
   \<and> run_clones (run_files demo_hash 2 [demo_x_js, demo_y_js])
       = [\<lparr>a_sourceId = ''x.js'', a_first = 0, b_sourceId = ''x.js'', b_first = 3, extensions = 0\<rparr>,
          \<lparr>a_sourceId = ''x.js'', a_first = 3, b_sourceId = ''y.js'', b_first = 0, extensions = 0\<rparr>]
   \<and> count_list (run_clones (run_files demo_hash 2 [demo_x_js, demo_y_js]))
         (pair_clone 2 demo_x_js 0 demo_y_js 0 2) = 0"
proof -
  have mp: "maximal_pair 2 (significant (file_tokens demo_x_js))
              (significant (file_tokens demo_y_js)) 0 0 2"
    by (simp add: maximal_pair_def demo_x_js_def demo_y_js_def demo_file_def demo_tokens_def
          significant_def keys_from_def upt_rec)
  have ne: "file_sourceId demo_x_js \<noteq> file_sourceId demo_y_js"
    by (simp add: demo_x_js_def demo_y_js_def demo_file_def)
  have run: "run_clones (run_files demo_hash 2 [demo_x_js, demo_y_js])
       = [\<lparr>a_sourceId = ''x.js'', a_first = 0, b_sourceId = ''x.js'', b_first = 3, extensions = 0\<rparr>,
          \<lparr>a_sourceId = ''x.js'', a_first = 3, b_sourceId = ''y.js'', b_first = 0, extensions = 0\<rparr>]"
    by (simp add: matcher_simps demo_x_js_def demo_y_js_def upt_rec demo_hash_def)
  have "count_list (run_clones (run_files demo_hash 2 [demo_x_js, demo_y_js]))
         (pair_clone 2 demo_x_js 0 demo_y_js 0 2) = 0"
    unfolding run by (simp add: pair_clone_def demo_x_js_def demo_y_js_def demo_file_def)
  with mp ne run show ?thesis by blast
qed

end
